theory Spec2Isabelle
  imports Complex_Main "HOL-Library.Word"
begin

unbundle bit_operations_syntax

section \<open>The Go runtime as far as table.go depends on it\<close>

text \<open>
  A run-time panic is a value: indexing a slice out of range, slicing with a negative
  bound, and \<^verbatim>\<open>make\<close> with a negative capacity.
\<close>

datatype panic = IndexOutOfRange | SliceBoundsOutOfRange | MakesliceCapOutOfRange

text \<open>\<^verbatim>\<open>xs[i]\<close> with a Go \<^verbatim>\<open>int\<close> index.\<close>

definition idx :: "'a list \<Rightarrow> int \<Rightarrow> panic + 'a" where
  "idx xs i = (if 0 \<le> i \<and> i < int (length xs) then Inr (xs ! nat i) else Inl IndexOutOfRange)"

text \<open>
  The value of the Go type \<^verbatim>\<open>error\<close>: \<open>None\<close> is \<^verbatim>\<open>nil\<close>. The two sentinel
  errors of table.go, and \<open>Err\<close> for every other error (\<^verbatim>\<open>errors.New\<close>, a failed ping).
\<close>

datatype error = ErrPeerRejectedHighLatency | ErrPeerRejectedNoCapacity | Err string

text \<open>
  A \<^verbatim>\<open>time.Time\<close> is the number of nanoseconds since the zero Time (an unbounded
  integer: the value of \<^verbatim>\<open>var t time.Time\<close> is 0). A \<^verbatim>\<open>time.Duration\<close> is an int64
  count of nanoseconds, and \<^verbatim>\<open>t.Sub(u)\<close> saturates at the ends of int64.
  \<^verbatim>\<open>time.Since(t)\<close> is \<^verbatim>\<open>time.Now().Sub(t)\<close>; the clock reading is the argument \<open>now\<close>.
\<close>

definition maxDuration :: int where
  "maxDuration = 2 ^ 63 - 1"

definition minDuration :: int where
  "minDuration = - (2 ^ 63)"

definition Sub :: "int \<Rightarrow> int \<Rightarrow> int" where
  "Sub t u = (if t - u > maxDuration then maxDuration
              else if t - u < minDuration then minDuration else t - u)"

definition Since :: "int \<Rightarrow> int \<Rightarrow> int" where
  "Since now t = Sub now t"

text \<open>The number of binary digits of a natural number.\<close>

fun bitlen :: "nat \<Rightarrow> nat" where
  "bitlen n = (if n = 0 then 0 else Suc (bitlen (n div 2)))"

declare bitlen.simps [simp del]

text \<open>
  The conversion \<^verbatim>\<open>float64(d)\<close> of an int64: the nearest number with a significand of
  53 bits, ties to the even significand. The result of converting an integer is an integer.
\<close>

definition round53 :: "int \<Rightarrow> int" where
  "round53 d =
     (let a = nat \<bar>d\<bar>; e = bitlen a - 53; q = a div 2 ^ e; r = a mod 2 ^ e
      in if bitlen a \<le> 53 then d
         else sgn d * int ((if 2 * r > 2 ^ e \<or> (2 * r = 2 ^ e \<and> odd q) then q + 1 else q) * 2 ^ e))"

definition float64 :: "int \<Rightarrow> real" where
  "float64 d = of_int (round53 d)"

text \<open>Integer division of Go: the quotient is truncated towards zero.\<close>

definition quo :: "int \<Rightarrow> int \<Rightarrow> int" where
  "quo a b = sgn a * sgn b * (\<bar>a\<bar> div \<bar>b\<bar>)"

section \<open>Keys and distance\<close>

text \<open>
  Modelled from the spec: the key type \<^verbatim>\<open>ID\<close> and the functions \<^verbatim>\<open>CommonPrefixLen\<close> and
  \<^verbatim>\<open>xor\<close> are declared outside table.go. A key is a fixed-width bit string, here a
  word of any width; the distance of two keys is their bitwise XOR read as an unsigned
  big-endian integer (the order of words); the common prefix length is the number of
  leading bits in which the two keys agree, between 0 and the width.

  \<^verbatim>\<open>ConvertPeerID\<close> (the hash of a peer id) is an argument of every function that calls it.
  A \<^verbatim>\<open>peer.ID\<close> is a Go string.
\<close>

definition xor_dist :: "'w::len word \<Rightarrow> 'w word \<Rightarrow> 'w word" where
  "xor_dist a b = a XOR b"

definition CommonPrefixLen :: "'w::len word \<Rightarrow> 'w word \<Rightarrow> nat" where
  "CommonPrefixLen a b = LENGTH('w) - bitlen (unat (a XOR b))"

section \<open>Buckets\<close>

text \<open>
  Modelled from the spec: the peer record and the bucket are declared outside table.go.
  A record holds the id, the time of the last successful outbound query (the zero Time when
  there was none) and the key of the id, in the order of the literal
  \<^verbatim>\<open>peerInfo{p, lastSuccessfulOutboundQuery, ConvertPeerID(p)}\<close>.
\<close>

record 'k peerInfo =
  Id :: string
  lastSuccessfulOutboundQuery :: int
  key :: 'k

text \<open>
  Modelled from the spec: the bucket, an ordered sequence of records with the front first,
  and its operations (section 4.2 of the spec). An operation that changes the bucket in
  place returns the new bucket.
\<close>

type_synonym 'k bucket = "'k peerInfo list"

definition newBucket :: "'k bucket" where
  "newBucket = []"

definition getPeer :: "'k bucket \<Rightarrow> string \<Rightarrow> 'k peerInfo option" where
  "getPeer b p = find (\<lambda>r. Id r = p) b"

definition pushFront :: "'k bucket \<Rightarrow> 'k peerInfo \<Rightarrow> 'k bucket" where
  "pushFront b r = r # b"

fun remove :: "'k bucket \<Rightarrow> string \<Rightarrow> bool \<times> 'k bucket" where
  "remove [] p = (False, [])"
| "remove (r # b) p =
     (if Id r = p then (True, b) else (case remove b p of (removed, b') \<Rightarrow> (removed, r # b')))"

definition len :: "'k bucket \<Rightarrow> int" where
  "len b = int (length b)"

definition peers :: "'k bucket \<Rightarrow> 'k peerInfo list" where
  "peers b = b"

definition peerIds :: "'k bucket \<Rightarrow> string list" where
  "peerIds b = map Id b"

text \<open>
  Modelled from the spec: \<^verbatim>\<open>bucket.split\<close> is declared outside table.go. Section 4.3 of
  the spec: the records of the bucket are partitioned by whether they share at least
  \<open>d + 1\<close> bits with the target, one part remains in the bucket, the other forms the new
  bucket, and the split preserves the bucket assignment. Which part forms the new bucket is
  fixed by table.go: \<^verbatim>\<open>bucketIdForPeer\<close> (line 409) looks a record with \<open>c\<close> common bits up in
  bucket \<open>min c (m - 1)\<close>, the comments of \<^verbatim>\<open>nextBucket\<close> (lines 270 to 272 and 277 to 280) say
  that the peers of the last bucket may belong to buckets further on and that a split may
  leave an empty bucket behind, and the comment of \<^verbatim>\<open>NearestPeers\<close> (lines 306 to 309) says that
  the peers of bucket \<open>cpl\<close> share \<open>cpl\<close> bits with the local key. So the records that share
  more than \<open>d\<close> bits with the target form the new bucket and the others remain. The result
  is the pair of the remaining bucket and the new bucket.
\<close>

definition split :: "'w::len word bucket \<Rightarrow> int \<Rightarrow> 'w word \<Rightarrow> 'w word bucket \<times> 'w word bucket" where
  "split b d target =
     (filter (\<lambda>r. \<not> int (CommonPrefixLen (key r) target) > d) b,
      filter (\<lambda>r. int (CommonPrefixLen (key r) target) > d) b)"

text \<open>
  The write through the handle that \<^verbatim>\<open>getPeer\<close> returns
  (\<^verbatim>\<open>pc.lastSuccessfulOutboundQuery = t\<close>): the first record with the id is updated.
\<close>

fun setLast :: "'k bucket \<Rightarrow> string \<Rightarrow> int \<Rightarrow> 'k bucket" where
  "setLast [] p t = []"
| "setLast (r # b) p t =
     (if Id r = p then r\<lparr>lastSuccessfulOutboundQuery := t\<rparr> # b else r # setLast b p t)"

section \<open>The distance sorter\<close>

text \<open>
  Modelled from the spec: \<^verbatim>\<open>peerDistanceSorter\<close> is declared outside table.go; its fields
  \<^verbatim>\<open>peers\<close> (here \<open>sorter_peers\<close>) and \<^verbatim>\<open>target\<close> are those of the literal in
  \<^verbatim>\<open>NearestPeers\<close>, and \<open>p_id\<close> is the field \<^verbatim>\<open>p\<close> of a candidate. A candidate is
  an id with its distance to the target; \<^verbatim>\<open>sort\<close> orders the candidates by distance,
  ascending (section 4.6 of the spec, step 5).
\<close>

record 'k peerDistance =
  p_id :: string
  distance :: 'k

record 'k peerDistanceSorter =
  sorter_peers :: "'k peerDistance list"
  target :: 'k

definition candidate :: "'w::len word \<Rightarrow> 'w word peerInfo \<Rightarrow> 'w word peerDistance" where
  "candidate t r = \<lparr>p_id = Id r, distance = xor_dist t (key r)\<rparr>"

definition appendPeersFromList ::
  "'w::len word peerDistanceSorter \<Rightarrow> 'w word bucket \<Rightarrow> 'w word peerDistanceSorter" where
  "appendPeersFromList pds l =
     pds\<lparr>sorter_peers := sorter_peers pds @ map (candidate (target pds)) l\<rparr>"

definition Len :: "'k peerDistanceSorter \<Rightarrow> int" where
  "Len pds = int (length (sorter_peers pds))"

definition sort_pds :: "'w::len word peerDistanceSorter \<Rightarrow> 'w word peerDistanceSorter" where
  "sort_pds pds = pds\<lparr>sorter_peers := sort_key distance (sorter_peers pds)\<rparr>"

section \<open>The routing table\<close>

text \<open>
  The calls of the two notification functions are recorded in the order in which they
  are made.
\<close>

datatype event = PeerAdded string | PeerRemoved string

text \<open>
  The fields of \<^verbatim>\<open>RoutingTable\<close> that the operations read or write. \<open>metrics\<close> is the
  latency oracle \<^verbatim>\<open>LatencyEWMA\<close>; \<open>peerPingFnc\<close> gives the error of a ping (\<open>None\<close> when
  the ping succeeds); \<open>notified\<close> is the record of the calls of \<^verbatim>\<open>PeerAdded\<close> and
  \<^verbatim>\<open>PeerRemoved\<close>.
\<close>

record 'k RoutingTable =
  local :: 'k
  metrics :: "string \<Rightarrow> int"
  maxLatency :: int
  buckets :: "'k bucket list"
  bucketsize :: int
  maxLastSuccessfulOutboundThreshold :: real
  rtRefreshInterval :: int
  peerPingFnc :: "string \<Rightarrow> error option"
  peerConnectednessFnc :: "string \<Rightarrow> bool"
  notified :: "event list"

definition NewRoutingTable ::
  "int \<Rightarrow> 'k \<Rightarrow> int \<Rightarrow> (string \<Rightarrow> int) \<Rightarrow> real \<Rightarrow> int \<Rightarrow>
   (string \<Rightarrow> error option) option \<Rightarrow> (string \<Rightarrow> bool) option \<Rightarrow> error + 'k RoutingTable" where
  "NewRoutingTable bucketsize' localID latency m threshold interval ping connectedness =
     (case ping of
        None \<Rightarrow> Inl (Err ''peerPing func is nil'')
      | Some pingFnc \<Rightarrow>
          (case connectedness of
             None \<Rightarrow> Inl (Err ''peerConnectednesss func is nil'')
           | Some connectednessFnc \<Rightarrow>
               Inr \<lparr>local = localID, metrics = m, maxLatency = latency,
                    buckets = [newBucket], bucketsize = bucketsize',
                    maxLastSuccessfulOutboundThreshold = threshold,
                    rtRefreshInterval = interval,
                    peerPingFnc = pingFnc, peerConnectednessFnc = connectednessFnc,
                    notified = []\<rparr>))"

definition bucketIdForPeer ::
  "(string \<Rightarrow> 'w::len word) \<Rightarrow> 'w word RoutingTable \<Rightarrow> string \<Rightarrow> int" where
  "bucketIdForPeer ConvertPeerID rt q =
     (let peerID = ConvertPeerID q;
          cpl = int (CommonPrefixLen peerID (local rt));
          bucketID = cpl
      in if bucketID \<ge> int (length (buckets rt)) then int (length (buckets rt)) - 1
         else bucketID)"

text \<open>The bucket at an index in range is replaced: the buckets are changed in place.\<close>

definition setBucket :: "'k RoutingTable \<Rightarrow> int \<Rightarrow> 'k bucket \<Rightarrow> 'k RoutingTable" where
  "setBucket rt i b = rt\<lparr>buckets := (buckets rt)[nat i := b]\<rparr>"

text \<open>\<^verbatim>\<open>rt.buckets = append(rt.buckets, newBucket)\<close>.\<close>

definition appendBucket :: "'k RoutingTable \<Rightarrow> 'k bucket \<Rightarrow> 'k RoutingTable" where
  "appendBucket rt b = rt\<lparr>buckets := buckets rt @ [b]\<rparr>"

definition notify :: "'k RoutingTable \<Rightarrow> event \<Rightarrow> 'k RoutingTable" where
  "notify rt e = rt\<lparr>notified := notified rt @ [e]\<rparr>"

text \<open>
  \<^verbatim>\<open>nextBucket\<close> calls itself as long as the new bucket is full, so it is a partial
  function: \<open>None\<close> is the call that does not return.
\<close>

partial_function (option) nextBucket ::
  "'w::len word RoutingTable \<Rightarrow> (panic + 'w word RoutingTable) option" where
  "nextBucket rt =
     (case idx (buckets rt) (int (length (buckets rt)) - 1) of
        Inl e \<Rightarrow> Some (Inl e)
      | Inr bucket \<Rightarrow>
          (case split bucket (int (length (buckets rt)) - 1) (local rt) of
             (bucket', newBucket') \<Rightarrow>
               (let rt' = appendBucket (setBucket rt (int (length (buckets rt)) - 1) bucket') newBucket'
                in if len newBucket' \<ge> bucketsize rt' then nextBucket rt' else Some (Inr rt'))))"

declare nextBucket.simps [code]

text \<open>
  The test of the eviction sweep, line 220:
  \<^verbatim>\<open>float64(time.Since(pc.lastSuccessfulOutboundQuery)) > rt.maxLastSuccessfulOutboundThreshold\<close>.
\<close>

definition stale :: "'k RoutingTable \<Rightarrow> int \<Rightarrow> 'k peerInfo \<Rightarrow> bool" where
  "stale rt now pc \<longleftrightarrow>
     float64 (Since now (lastSuccessfulOutboundQuery pc)) > maxLastSuccessfulOutboundThreshold rt"

text \<open>
  The loop of lines 219 to 228 over the snapshot \<open>allPeers\<close>: the result is the bucket
  without the evicted record, or \<open>None\<close> when the loop ends without an eviction.
\<close>

fun sweep :: "'k RoutingTable \<Rightarrow> int \<Rightarrow> 'k peerInfo list \<Rightarrow> 'k bucket \<Rightarrow> 'k bucket option" where
  "sweep rt now [] bucket = None"
| "sweep rt now (pc # allPeers) bucket =
     (if stale rt now pc
      then (case remove bucket (Id pc) of
              (removed, bucket') \<Rightarrow> if removed then Some bucket' else sweep rt now allPeers bucket')
      else sweep rt now allPeers bucket)"

text \<open>
  The record that \<^verbatim>\<open>addPeer\<close> pushes, \<^verbatim>\<open>&peerInfo{p, lastSuccessfulOutboundQuery, ConvertPeerID(p)}\<close>,
  where \<^verbatim>\<open>lastSuccessfulOutboundQuery\<close> is \<^verbatim>\<open>time.Now()\<close> for a query peer and the zero Time
  otherwise (lines 178 to 181).
\<close>

definition mkPeer :: "(string \<Rightarrow> 'k) \<Rightarrow> int \<Rightarrow> string \<Rightarrow> bool \<Rightarrow> 'k peerInfo" where
  "mkPeer ConvertPeerID now q queryPeer =
     \<lparr>Id = q, lastSuccessfulOutboundQuery = (if queryPeer then now else 0), key = ConvertPeerID q\<rparr>"

text \<open>
  The three statements \<^verbatim>\<open>bucket.pushFront(...)\<close>, \<^verbatim>\<open>rt.PeerAdded(p)\<close>, \<^verbatim>\<open>return true, nil\<close>, which
  occur at lines 196, 210 and 223.
\<close>

definition admit ::
  "'k RoutingTable \<Rightarrow> int \<Rightarrow> 'k bucket \<Rightarrow> 'k peerInfo \<Rightarrow> (bool \<times> error option) \<times> 'k RoutingTable" where
  "admit rt bucketID bucket new =
     ((True, None), notify (setBucket rt bucketID (pushFront bucket new)) (PeerAdded (Id new)))"

text \<open>Lines 216 to 230 of \<^verbatim>\<open>addPeer\<close>, with the bucket and its index resolved.\<close>

definition evict ::
  "'k RoutingTable \<Rightarrow> int \<Rightarrow> int \<Rightarrow> 'k bucket \<Rightarrow> 'k peerInfo \<Rightarrow>
   (bool \<times> error option) \<times> 'k RoutingTable" where
  "evict rt now bucketID bucket new =
     (case sweep rt now (peers bucket) bucket of
        Some bucket' \<Rightarrow> admit rt bucketID bucket' new
      | None \<Rightarrow> ((False, Some ErrPeerRejectedNoCapacity), rt))"

definition addPeer ::
  "(string \<Rightarrow> 'w::len word) \<Rightarrow> int \<Rightarrow> 'w word RoutingTable \<Rightarrow> string \<Rightarrow> bool \<Rightarrow>
   (panic + (bool \<times> error option) \<times> 'w word RoutingTable) option" where
  "addPeer ConvertPeerID now rt q queryPeer =
     (let bucketID = bucketIdForPeer ConvertPeerID rt q in
      case idx (buckets rt) bucketID of
        Inl e \<Rightarrow> Some (Inl e)
      | Inr bucket \<Rightarrow>
          (let new = mkPeer ConvertPeerID now q queryPeer
           in if getPeer bucket q \<noteq> None then Some (Inr ((False, None), rt))
              else if metrics rt q > maxLatency rt
              then Some (Inr ((False, Some ErrPeerRejectedHighLatency), rt))
              else if len bucket < bucketsize rt
              then Some (Inr (admit rt bucketID bucket new))
              else if bucketID = int (length (buckets rt)) - 1
              then (case nextBucket rt of
                      None \<Rightarrow> None
                    | Some (Inl e) \<Rightarrow> Some (Inl e)
                    | Some (Inr rt') \<Rightarrow>
                        (let bucketID' = bucketIdForPeer ConvertPeerID rt' q in
                         case idx (buckets rt') bucketID' of
                           Inl e \<Rightarrow> Some (Inl e)
                         | Inr bucket' \<Rightarrow>
                             if len bucket' < bucketsize rt'
                             then Some (Inr (admit rt' bucketID' bucket' new))
                             else Some (Inr (evict rt' now bucketID' bucket' new))))
              else Some (Inr (evict rt now bucketID bucket new))))"

definition TryAddPeer ::
  "(string \<Rightarrow> 'w::len word) \<Rightarrow> int \<Rightarrow> 'w word RoutingTable \<Rightarrow> string \<Rightarrow> bool \<Rightarrow>
   (panic + (bool \<times> error option) \<times> 'w word RoutingTable) option" where
  "TryAddPeer ConvertPeerID now rt q queryPeer = addPeer ConvertPeerID now rt q queryPeer"

definition UpdateLastSuccessfulOutboundQuery ::
  "(string \<Rightarrow> 'w::len word) \<Rightarrow> 'w word RoutingTable \<Rightarrow> string \<Rightarrow> int \<Rightarrow>
   panic + bool \<times> 'w word RoutingTable" where
  "UpdateLastSuccessfulOutboundQuery ConvertPeerID rt q t =
     (let bucketID = bucketIdForPeer ConvertPeerID rt q in
      case idx (buckets rt) bucketID of
        Inl e \<Rightarrow> Inl e
      | Inr bucket \<Rightarrow>
          if getPeer bucket q \<noteq> None then Inr (True, setBucket rt bucketID (setLast bucket q t))
          else Inr (False, rt))"

definition removePeer ::
  "(string \<Rightarrow> 'w::len word) \<Rightarrow> 'w word RoutingTable \<Rightarrow> string \<Rightarrow> panic + 'w word RoutingTable" where
  "removePeer ConvertPeerID rt q =
     (let bucketID = bucketIdForPeer ConvertPeerID rt q in
      case idx (buckets rt) bucketID of
        Inl e \<Rightarrow> Inl e
      | Inr bucket \<Rightarrow>
          (case remove bucket q of
             (removed, bucket') \<Rightarrow>
               if removed then Inr (notify (setBucket rt bucketID bucket') (PeerRemoved q))
               else Inr (setBucket rt bucketID bucket')))"

definition RemovePeer ::
  "(string \<Rightarrow> 'w::len word) \<Rightarrow> 'w word RoutingTable \<Rightarrow> string \<Rightarrow> panic + 'w word RoutingTable" where
  "RemovePeer ConvertPeerID rt q = removePeer ConvertPeerID rt q"

section \<open>Lookups\<close>

text \<open>
  The two loops of \<^verbatim>\<open>NearestPeers\<close> that add whole buckets while the sorter holds fewer
  than \<open>count\<close> candidates; the buckets are given in the order in which the loop visits them.
\<close>

fun appendWhileShort ::
  "int \<Rightarrow> 'w::len word peerDistanceSorter \<Rightarrow> 'w word bucket list \<Rightarrow> 'w word peerDistanceSorter" where
  "appendWhileShort count pds [] = pds"
| "appendWhileShort count pds (b # bs) =
     (if Len pds < count then appendWhileShort count (appendPeersFromList pds b) bs else pds)"

text \<open>The candidates of \<^verbatim>\<open>NearestPeers\<close> before they are sorted (lines 310 to 351).\<close>

definition gather ::
  "'w::len word RoutingTable \<Rightarrow> 'w word \<Rightarrow> int \<Rightarrow> panic + 'w word peerDistanceSorter" where
  "gather rt id' count =
     (let cpl = int (CommonPrefixLen id' (local rt));
          cpl = (if cpl \<ge> int (length (buckets rt)) then int (length (buckets rt)) - 1 else cpl)
      in if count + bucketsize rt < 0 then Inl MakesliceCapOutOfRange
         else (case idx (buckets rt) cpl of
                 Inl e \<Rightarrow> Inl e
               | Inr b \<Rightarrow>
                   (let pds = appendPeersFromList \<lparr>sorter_peers = [], target = id'\<rparr> b;
                        pds = appendWhileShort count pds (drop (nat (cpl + 1)) (buckets rt));
                        pds = appendWhileShort count pds (rev (take (nat cpl) (buckets rt)))
                    in Inr pds)))"

definition NearestPeers ::
  "'w::len word RoutingTable \<Rightarrow> 'w word \<Rightarrow> int \<Rightarrow> panic + string list" where
  "NearestPeers rt id' count =
     (case gather rt id' count of
        Inl e \<Rightarrow> Inl e
      | Inr pds \<Rightarrow>
          (let pds = sort_pds pds
           in if count < Len pds
              then (if count < 0 then Inl SliceBoundsOutOfRange
                    else Inr (map p_id (take (nat count) (sorter_peers pds))))
              else Inr (map p_id (sorter_peers pds))))"


definition NearestPeer :: "'w::len word RoutingTable \<Rightarrow> 'w word \<Rightarrow> panic + string" where
  "NearestPeer rt id' =
     (case NearestPeers rt id' 1 of
        Inl e \<Rightarrow> Inl e
      | Inr ps \<Rightarrow> (case ps of [] \<Rightarrow> Inr [] | x # _ \<Rightarrow> Inr x))"

definition Size :: "'k RoutingTable \<Rightarrow> int" where
  "Size rt = sum_list (map len (buckets rt))"

definition ListPeers :: "'k RoutingTable \<Rightarrow> string list" where
  "ListPeers rt = concat (map peerIds (buckets rt))"

section \<open>The liveness loop\<close>

text \<open>
  The body of the loop over the snapshot in \<^verbatim>\<open>background\<close> (lines 120 to 138) for one
  record \<open>ps\<close> of the snapshot, on the table as it is when the iteration runs; \<open>now\<close> is
  the clock reading of \<^verbatim>\<open>time.Since\<close>.
\<close>

definition checkPeer ::
  "(string \<Rightarrow> 'w::len word) \<Rightarrow> int \<Rightarrow> 'w word RoutingTable \<Rightarrow> 'w word peerInfo \<Rightarrow>
   panic + 'w word RoutingTable" where
  "checkPeer ConvertPeerID now rt ps =
     (if Since now (lastSuccessfulOutboundQuery ps) > quo (rtRefreshInterval rt) 3
      then (case peerPingFnc rt (Id ps) of
              Some err \<Rightarrow>
                if \<not> peerConnectednessFnc rt (Id ps) then removePeer ConvertPeerID rt (Id ps)
                else Inr rt
            | None \<Rightarrow> Inr rt)
      else Inr rt)"

text \<open>The snapshot of one tick (lines 113 to 116) and the loop over it.\<close>

definition snapshot :: "'k RoutingTable \<Rightarrow> 'k peerInfo list" where
  "snapshot rt = concat (map peers (buckets rt))"

fun checkPeers ::
  "(string \<Rightarrow> 'w::len word) \<Rightarrow> int \<Rightarrow> 'w word RoutingTable \<Rightarrow> 'w word peerInfo list \<Rightarrow>
   panic + 'w word RoutingTable" where
  "checkPeers ConvertPeerID now rt [] = Inr rt"
| "checkPeers ConvertPeerID now rt (ps # rest) =
     (case checkPeer ConvertPeerID now rt ps of
        Inl e \<Rightarrow> Inl e
      | Inr rt' \<Rightarrow> checkPeers ConvertPeerID now rt' rest)"

section \<open>Sequences of operations\<close>

text \<open>
  The operations that change the table: the three public ones with their arguments (and the
  clock reading of the call for \<^verbatim>\<open>TryAddPeer\<close>), and one iteration of the liveness loop for a
  record of its snapshot. \<open>run\<close> applies a sequence of them in order; it stops at a panic
  and is \<open>None\<close> when a call does not return.
\<close>

datatype 'k op =
    OpTryAddPeer string bool int
  | OpRemovePeer string
  | OpUpdateLastSuccessfulOutboundQuery string int
  | OpCheckPeer "'k peerInfo" int

fun step ::
  "(string \<Rightarrow> 'w::len word) \<Rightarrow> 'w word RoutingTable \<Rightarrow> 'w word op \<Rightarrow>
   (panic + 'w word RoutingTable) option" where
  "step ConvertPeerID rt (OpTryAddPeer q queryPeer now) =
     map_option (map_sum id snd) (TryAddPeer ConvertPeerID now rt q queryPeer)"
| "step ConvertPeerID rt (OpRemovePeer q) = Some (RemovePeer ConvertPeerID rt q)"
| "step ConvertPeerID rt (OpUpdateLastSuccessfulOutboundQuery q t) =
     Some (map_sum id snd (UpdateLastSuccessfulOutboundQuery ConvertPeerID rt q t))"
| "step ConvertPeerID rt (OpCheckPeer ps now) = Some (checkPeer ConvertPeerID now rt ps)"

fun run ::
  "(string \<Rightarrow> 'w::len word) \<Rightarrow> 'w word RoutingTable \<Rightarrow> 'w word op list \<Rightarrow>
   (panic + 'w word RoutingTable) option" where
  "run ConvertPeerID rt [] = Some (Inr rt)"
| "run ConvertPeerID rt (x # xs) =
     (case step ConvertPeerID rt x of
        None \<Rightarrow> None
      | Some (Inl e) \<Rightarrow> Some (Inl e)
      | Some (Inr rt') \<Rightarrow> run ConvertPeerID rt' xs)"

section \<open>Invariants of the data model\<close>

text \<open>
  Bucket assignment: every record of bucket \<open>i\<close> has \<open>min c (m - 1) = i\<close>, where \<open>c\<close> is
  the common prefix length of its key with the local key and \<open>m\<close> the number of buckets.
\<close>

definition assigned :: "'w::len word RoutingTable \<Rightarrow> bool" where
  "assigned rt \<longleftrightarrow>
     (\<forall>(i, b) \<in> set (enumerate 0 (buckets rt)). \<forall>r \<in> set b.
        min (CommonPrefixLen (key r) (local rt)) (length (buckets rt) - 1) = i)"

text \<open>Every record holds the key of its id, as the records that \<^verbatim>\<open>addPeer\<close> builds do.\<close>

definition keyed :: "(string \<Rightarrow> 'w::len word) \<Rightarrow> 'w word RoutingTable \<Rightarrow> bool" where
  "keyed ConvertPeerID rt \<longleftrightarrow>
     (\<forall>b \<in> set (buckets rt). \<forall>r \<in> set b. key r = ConvertPeerID (Id r))"

text \<open>
  The three properties together, on a table with at least one bucket: the state of a table
  that the operations have built.
\<close>

definition consistent :: "(string \<Rightarrow> 'w::len word) \<Rightarrow> 'w word RoutingTable \<Rightarrow> bool" where
  "consistent ConvertPeerID rt \<longleftrightarrow> buckets rt \<noteq> [] \<and> assigned rt \<and> keyed ConvertPeerID rt"

text \<open>
  The index of the bucket of a target key, the value of \<^verbatim>\<open>cpl\<close> in \<^verbatim>\<open>NearestPeers\<close> after
  line 319, on a table with at least one bucket.
\<close>

definition targetIndex :: "'w::len word RoutingTable \<Rightarrow> 'w word \<Rightarrow> nat" where
  "targetIndex rt t = min (CommonPrefixLen t (local rt)) (length (buckets rt) - 1)"

text \<open>
  The buckets in the order in which \<^verbatim>\<open>NearestPeers\<close> visits them (lines 326 to 351): the
  bucket of the target, the buckets after it, then the buckets before it, nearest first.
\<close>

definition visit :: "'w::len word RoutingTable \<Rightarrow> 'w word \<Rightarrow> 'w word bucket list" where
  "visit rt t =
     buckets rt ! targetIndex rt t
     # drop (Suc (targetIndex rt t)) (buckets rt) @ rev (take (targetIndex rt t) (buckets rt))"

text \<open>Capacity: no bucket holds more than \<open>bucketsize\<close> records.\<close>

definition capacity :: "'k RoutingTable \<Rightarrow> bool" where
  "capacity rt \<longleftrightarrow> (\<forall>b \<in> set (buckets rt). len b \<le> bucketsize rt)"

section \<open>One unfolding step\<close>

text \<open>
  The two halves into which \<^verbatim>\<open>nextBucket\<close> splits the last bucket at depth \<open>m - 1\<close>, and
  the table after the split and the \<^verbatim>\<open>append\<close>.
\<close>

definition stay :: "'w::len word RoutingTable \<Rightarrow> 'w word bucket" where
  "stay rt = fst (split (last (buckets rt)) (int (length (buckets rt)) - 1) (local rt))"

definition moved :: "'w::len word RoutingTable \<Rightarrow> 'w word bucket" where
  "moved rt = snd (split (last (buckets rt)) (int (length (buckets rt)) - 1) (local rt))"

definition unfold1 :: "'w::len word RoutingTable \<Rightarrow> 'w word RoutingTable" where
  "unfold1 rt = appendBucket (setBucket rt (int (length (buckets rt)) - 1) (stay rt)) (moved rt)"

text \<open>
  Where the records of the last bucket of \<open>r\<close> are in a later table \<open>r'\<close>: the buckets before
  the last one are as they were, the bucket at the old last index holds the records that
  stayed at the first split, and the buckets after it hold the records that moved.
\<close>

definition placed :: "'w::len word RoutingTable \<Rightarrow> 'w word RoutingTable \<Rightarrow> bool" where
  "placed r r' \<longleftrightarrow>
     length (buckets r) < length (buckets r')
   \<and> take (length (buckets r) - 1) (buckets r') = butlast (buckets r)
   \<and> buckets r' ! (length (buckets r) - 1) = stay r
   \<and> \<Union> (set ` set (drop (length (buckets r)) (buckets r'))) = set (moved r)"

section \<open>Example tables\<close>

text \<open>
  Keys of four bits, as in the scenarios of the spec; the local key is \<open>0000\<close>. The peers
  \<open>A\<close>, \<open>B\<close>, \<open>C\<close>, \<open>D\<close> have the keys \<open>1000\<close>, \<open>0100\<close>, \<open>0010\<close>, \<open>1100\<close>.
\<close>

definition ex_key :: "string \<Rightarrow> 4 word" where
  "ex_key q =
     (if q = ''me'' then 0 else if q = ''A'' then 8 else if q = ''B'' then 4
      else if q = ''C'' then 2 else if q = ''D'' then 12 else 15)"

definition ex_metrics :: "string \<Rightarrow> int" where
  "ex_metrics q = (if q = ''slow'' then 100 else 0)"

definition ex_ping :: "string \<Rightarrow> error option" where
  "ex_ping q = (if q = ''A'' \<or> q = ''B'' then Some (Err ''timeout'') else None)"

definition ex_connected :: "string \<Rightarrow> bool" where
  "ex_connected q \<longleftrightarrow> q = ''A''"

definition ex_peer :: "string \<Rightarrow> int \<Rightarrow> 4 word peerInfo" where
  "ex_peer q t = \<lparr>Id = q, lastSuccessfulOutboundQuery = t, key = ex_key q\<rparr>"

definition ex_table :: "int \<Rightarrow> 4 word bucket list \<Rightarrow> 4 word RoutingTable" where
  "ex_table k bs =
     \<lparr>local = 0, metrics = ex_metrics, maxLatency = 10, buckets = bs, bucketsize = k,
      maxLastSuccessfulOutboundThreshold = 100, rtRefreshInterval = 30,
      peerPingFnc = ex_ping, peerConnectednessFnc = ex_connected, notified = []\<rparr>"

section \<open>Indexing\<close>

lemma idx_last: "xs \<noteq> [] \<Longrightarrow> idx xs (int (length xs) - 1) = Inr (last xs)"
  by (cases xs rule: rev_cases) (auto simp: idx_def nth_append nat_diff_distrib)

lemma idx_Nil: "idx [] i = Inl IndexOutOfRange"
  by (simp add: idx_def)

lemma idx_Inr: "idx xs i = Inr x \<longleftrightarrow> 0 \<le> i \<and> nat i < length xs \<and> x = xs ! nat i"
  by (auto simp: idx_def)

section \<open>One step of the unfold cascade\<close>

lemma CommonPrefixLen_le: "CommonPrefixLen (a :: 'w::len word) b \<le> LENGTH('w)"
  by (simp add: CommonPrefixLen_def)

lemma nextBucket_Nil: "buckets rt = [] \<Longrightarrow> nextBucket rt = Some (Inl IndexOutOfRange)"
  by (subst nextBucket.simps) (simp add: idx_Nil)

lemma nextBucket_step:
  "buckets rt \<noteq> [] \<Longrightarrow>
   nextBucket rt =
     (if len (moved rt) \<ge> bucketsize rt then nextBucket (unfold1 rt) else Some (Inr (unfold1 rt)))"
  by (subst nextBucket.simps)
     (simp add: idx_last stay_def moved_def unfold1_def split_def Let_def appendBucket_def
        setBucket_def)

lemma buckets_unfold1:
  "buckets rt \<noteq> [] \<Longrightarrow> buckets (unfold1 rt) = butlast (buckets rt) @ [stay rt, moved rt]"
  by (cases "buckets rt" rule: rev_cases)
     (auto simp: unfold1_def appendBucket_def setBucket_def nat_diff_distrib)

lemma length_unfold1: "buckets rt \<noteq> [] \<Longrightarrow> length (buckets (unfold1 rt)) = Suc (length (buckets rt))"
  by (cases "buckets rt" rule: rev_cases) (simp_all add: buckets_unfold1)

lemma moved_eq:
  "moved rt =
     filter (\<lambda>r. length (buckets rt) \<le> CommonPrefixLen (key r) (local rt)) (last (buckets rt))"
  by (auto simp: moved_def split_def intro!: filter_cong)

lemma stay_eq:
  "stay rt =
     filter (\<lambda>r. CommonPrefixLen (key r) (local rt) < length (buckets rt)) (last (buckets rt))"
  by (auto simp: stay_def split_def intro!: filter_cong)

lemma moved_beyond_width:
  fixes rt :: "'w::len word RoutingTable"
  assumes "LENGTH('w) < length (buckets rt)"
  shows "moved rt = []"
proof -
  have "\<not> length (buckets rt) \<le> CommonPrefixLen (key r) (local rt)" for r :: "'w word peerInfo"
    using CommonPrefixLen_le [of "key r" "local rt"] assms by simp
  then show ?thesis
    by (simp add: moved_eq)
qed

lemma unfold1_simps [simp]:
  "local (unfold1 rt) = local rt"
  "bucketsize (unfold1 rt) = bucketsize rt"
  "notified (unfold1 rt) = notified rt"
  "metrics (unfold1 rt) = metrics rt"
  "maxLatency (unfold1 rt) = maxLatency rt"
  "maxLastSuccessfulOutboundThreshold (unfold1 rt) = maxLastSuccessfulOutboundThreshold rt"
  "rtRefreshInterval (unfold1 rt) = rtRefreshInterval rt"
  "peerPingFnc (unfold1 rt) = peerPingFnc rt"
  "peerConnectednessFnc (unfold1 rt) = peerConnectednessFnc rt"
  by (simp_all add: unfold1_def appendBucket_def setBucket_def)

section \<open>The unfold cascade\<close>

text \<open>
  A relation that holds for the table after a last split, and that a further split in front
  carries over, holds between every table and the table that \<^verbatim>\<open>nextBucket\<close> returns for it.
\<close>

lemma nextBucket_induct:
  assumes "nextBucket rt = Some (Inr rt')"
    and last: "\<And>r. buckets r \<noteq> [] \<Longrightarrow> len (moved r) < bucketsize r \<Longrightarrow> R r (unfold1 r)"
    and more: "\<And>r r'. buckets r \<noteq> [] \<Longrightarrow> bucketsize r \<le> len (moved r) \<Longrightarrow>
                 nextBucket (unfold1 r) = Some (Inr r') \<Longrightarrow> R (unfold1 r) r' \<Longrightarrow> R r r'"
  shows "R rt rt'"
proof -
  have "\<forall>rt'. y = Inr rt' \<longrightarrow> nextBucket rt = Some (Inr rt') \<and> R rt rt'" if "nextBucket rt = Some y" for y
  proof (rule nextBucket.raw_induct
      [where P = "\<lambda>rt y. \<forall>rt'. y = Inr rt' \<longrightarrow> nextBucket rt = Some (Inr rt') \<and> R rt rt'", OF _ that],
      goal_cases)
    case (1 f r y)
    show ?case
    proof (intro allI impI)
      fix r' assume y: "y = Inr r'"
      with 1(2) have ne: "buckets r \<noteq> []"
        by (auto simp: idx_Nil)
      show "nextBucket r = Some (Inr r') \<and> R r r'"
      proof (cases "bucketsize r \<le> len (moved r)")
        case True
        with 1(2) ne have "f (unfold1 r) = Some y"
          by (simp add: idx_last stay_def moved_def unfold1_def split_def Let_def appendBucket_def
              setBucket_def)
        from 1(1) [OF this] y have "nextBucket (unfold1 r) = Some (Inr r')" "R (unfold1 r) r'"
          by simp_all
        with ne True show ?thesis
          by (simp add: nextBucket_step more)
      next
        case False
        with 1(2) ne y have "r' = unfold1 r"
          by (simp add: idx_last stay_def moved_def unfold1_def split_def Let_def appendBucket_def
              setBucket_def)
        with ne False show ?thesis
          by (simp add: nextBucket_step last)
      qed
    qed
  qed
  with assms(1) show ?thesis by blast
qed

lemma nextBucket_preserves:
  assumes "nextBucket rt = Some (Inr rt')" and "I rt"
    and "\<And>r. buckets r \<noteq> [] \<Longrightarrow> I r \<Longrightarrow> I (unfold1 r)"
  shows "I rt'"
proof -
  have "I rt \<longrightarrow> I rt'"
    using assms(1) by (rule nextBucket_induct) (auto intro: assms(3))
  with assms(2) show ?thesis by simp
qed

text \<open>With a bucket size that is not positive the new bucket is always full.\<close>

lemma nextBucket_Some_positive:
  assumes "nextBucket rt = Some y"
  shows "\<not> (buckets rt \<noteq> [] \<and> bucketsize rt \<le> 0)"
proof (rule nextBucket.raw_induct
    [where P = "\<lambda>rt y. \<not> (buckets rt \<noteq> [] \<and> bucketsize rt \<le> 0)", OF _ assms],
    goal_cases)
  case (1 f rt y)
  show ?case
  proof
    assume c: "buckets rt \<noteq> [] \<and> bucketsize rt \<le> 0"
    then have "bucketsize rt \<le> len (moved rt)"
      by (simp add: len_def)
    with 1(2) c have "f (unfold1 rt) = Some y"
      by (simp add: idx_last stay_def moved_def unfold1_def split_def Let_def appendBucket_def
          setBucket_def)
    then have "\<not> (buckets (unfold1 rt) \<noteq> [] \<and> bucketsize (unfold1 rt) \<le> 0)"
      by (rule 1(1))
    with c show False
      by (simp add: buckets_unfold1)
  qed
qed

lemma nextBucket_diverges:
  "buckets rt \<noteq> [] \<Longrightarrow> bucketsize rt \<le> 0 \<Longrightarrow> nextBucket rt = None"
  using nextBucket_Some_positive [of rt] by (cases "nextBucket rt") auto

text \<open>
  With a positive bucket size the cascade ends: a split at a depth beyond the key width
  moves nothing.
\<close>

lemma nextBucket_returns:
  fixes rt :: "'w::len word RoutingTable"
  assumes "buckets rt \<noteq> []" and "1 \<le> bucketsize rt"
  shows "\<exists>rt'. nextBucket rt = Some (Inr rt')
      \<and> length (buckets rt') \<le> max (length (buckets rt) + 1) (LENGTH('w) + 2)"
  using assms
proof (induction "LENGTH('w) + 1 - length (buckets rt)" arbitrary: rt)
  case 0
  then have "moved rt = []"
    by (intro moved_beyond_width) simp
  with 0 show ?case
    by (simp add: nextBucket_step len_def length_unfold1)
next
  case (Suc n)
  show ?case
  proof (cases "bucketsize rt \<le> len (moved rt)")
    case False
    with Suc.prems show ?thesis
      by (simp add: nextBucket_step length_unfold1)
  next
    case True
    have "n = LENGTH('w) + 1 - length (buckets (unfold1 rt))"
      using Suc.hyps(2) Suc.prems(1) by (simp add: length_unfold1)
    moreover have "buckets (unfold1 rt) \<noteq> []" "1 \<le> bucketsize (unfold1 rt)"
      using Suc.prems by (simp_all add: buckets_unfold1)
    ultimately obtain rt' where "nextBucket (unfold1 rt) = Some (Inr rt')"
      "length (buckets rt') \<le> max (length (buckets (unfold1 rt)) + 1) (LENGTH('w) + 2)"
      using Suc.hyps(1) by blast
    moreover have "length (buckets (unfold1 rt)) + 1 \<le> LENGTH('w) + 2"
      using Suc.hyps(2) Suc.prems(1) by (simp add: length_unfold1)
    ultimately show ?thesis
      using True Suc.prems(1) by (simp add: nextBucket_step)
  qed
qed

lemma nextBucket_post:
  assumes "nextBucket rt = Some (Inr rt')"
  shows "buckets rt \<noteq> [] \<and> length (buckets rt) < length (buckets rt')
     \<and> len (last (buckets rt')) < bucketsize rt'
     \<and> local rt' = local rt \<and> bucketsize rt' = bucketsize rt \<and> notified rt' = notified rt
     \<and> metrics rt' = metrics rt \<and> maxLatency rt' = maxLatency rt
     \<and> maxLastSuccessfulOutboundThreshold rt' = maxLastSuccessfulOutboundThreshold rt
     \<and> rtRefreshInterval rt' = rtRefreshInterval rt \<and> peerPingFnc rt' = peerPingFnc rt
     \<and> peerConnectednessFnc rt' = peerConnectednessFnc rt"
  using assms by (rule nextBucket_induct) (simp_all add: buckets_unfold1 length_unfold1)

section \<open>Evaluation of the examples\<close>

lemmas ex_defs = ex_key_def ex_metrics_def ex_ping_def ex_connected_def ex_peer_def ex_table_def

lemma bitlen_0: "bitlen 0 = 0"
  by (simp add: bitlen.simps)

lemma bitlen_numeral: "bitlen (numeral k) = Suc (bitlen (numeral k div 2))"
  by (simp add: bitlen.simps)

lemma bitlen_1: "bitlen (Suc 0) = Suc 0"
  by (simp add: bitlen.simps)

lemmas ev = CommonPrefixLen_def bitlen_0 bitlen_numeral bitlen_1 moved_def stay_def unfold1_def
  split_def len_def appendBucket_def setBucket_def

section \<open>Termination of the unfold cascade\<close>

text \<open>
  Claim C8, as amended. On a table with at least one bucket and a bucket size of at least 1,
  \<^verbatim>\<open>nextBucket\<close> returns after finitely many splits: the table it returns has more buckets
  than before, at most \<open>max (m + 1) (width + 2)\<close>, and its last bucket holds fewer than
  \<open>bucketsize\<close> records. With a bucket size of 0 or less the call does not return.
\<close>

theorem nextBucket_termination:
  fixes rt :: "'w::len word RoutingTable"
  assumes "buckets rt \<noteq> []"
  shows "(1 \<le> bucketsize rt \<longrightarrow>
           (\<exists>rt'. nextBucket rt = Some (Inr rt')
              \<and> length (buckets rt) < length (buckets rt')
              \<and> length (buckets rt') \<le> max (length (buckets rt) + 1) (LENGTH('w) + 2)
              \<and> len (last (buckets rt')) < bucketsize rt'))
       \<and> (bucketsize rt \<le> 0 \<longrightarrow> nextBucket rt = None)"
proof (intro conjI impI)
  assume "1 \<le> bucketsize rt"
  with assms obtain rt' where r: "nextBucket rt = Some (Inr rt')"
    "length (buckets rt') \<le> max (length (buckets rt) + 1) (LENGTH('w) + 2)"
    using nextBucket_returns [of rt] by blast
  from nextBucket_post [OF r(1)] r
  show "\<exists>rt'. nextBucket rt = Some (Inr rt')
      \<and> length (buckets rt) < length (buckets rt')
      \<and> length (buckets rt') \<le> max (length (buckets rt) + 1) (LENGTH('w) + 2)
      \<and> len (last (buckets rt')) < bucketsize rt'"
    by blast
next
  assume "bucketsize rt \<le> 0"
  with assms show "nextBucket rt = None"
    by (rule nextBucket_diverges)
qed

theorem nextBucket_termination_witness:
  "buckets (ex_table 1 [[ex_peer ''B'' 0]]) \<noteq> []
   \<and> 1 \<le> bucketsize (ex_table 1 [[ex_peer ''B'' 0]])
   \<and> nextBucket (ex_table 1 [[ex_peer ''B'' 0]]) = Some (Inr (ex_table 1 [[], [ex_peer ''B'' 0], []]))
   \<and> buckets (ex_table 0 [[]]) \<noteq> []
   \<and> bucketsize (ex_table 0 [[]]) \<le> 0
   \<and> nextBucket (ex_table 0 [[]]) = None"
proof -
  have h1: "buckets (ex_table 1 [[ex_peer ''B'' 0]]) \<noteq> []"
    and h2: "1 \<le> bucketsize (ex_table 1 [[ex_peer ''B'' 0]])"
    and h3: "buckets (ex_table 0 [[]]) \<noteq> []"
    and h4: "bucketsize (ex_table 0 [[]]) \<le> 0"
    by (simp_all add: ex_table_def)
  have e: "nextBucket (ex_table 1 [[ex_peer ''B'' 0]]) = Some (Inr (ex_table 1 [[], [ex_peer ''B'' 0], []]))"
    by (simp add: nextBucket_step ex_defs ev)
  from nextBucket_termination [OF h3] h4 have "nextBucket (ex_table 0 [[]]) = None"
    by blast
  with h1 h2 h3 h4 e show ?thesis
    by blast
qed

text \<open>
  Claim C8 as stated fails: with \<open>bucketsize = 0\<close> the test \<^verbatim>\<open>newBucket.len() >= rt.bucketsize\<close>
  of line 278 holds after every split, whatever the split returns.
\<close>

theorem nextBucket_diverges_counterexample:
  "nextBucket (ex_table 0 [[]]) = None"
  by (rule nextBucket_diverges) (simp_all add: ex_table_def)

section \<open>The bucket assignment\<close>

lemma assigned_nth:
  "assigned rt \<longleftrightarrow>
     (\<forall>i < length (buckets rt). \<forall>r \<in> set (buckets rt ! i).
        min (CommonPrefixLen (key r) (local rt)) (length (buckets rt) - 1) = i)"
  by (fastforce simp: assigned_def enumerate_eq_zip set_zip)

lemma assigned_unfold1:
  assumes ne: "buckets rt \<noteq> []" and a: "assigned rt"
  shows "assigned (unfold1 rt)"
  unfolding assigned_nth [of "unfold1 rt"]
proof (intro allI impI ballI)
  let ?m = "length (buckets rt)"
  fix i r
  assume i: "i < length (buckets (unfold1 rt))" and r: "r \<in> set (buckets (unfold1 rt) ! i)"
  let ?c = "CommonPrefixLen (key r) (local rt)"
  from ne have m: "0 < ?m" by simp
  from i ne have i': "i < ?m + 1" by (simp add: length_unfold1)
  have b: "buckets (unfold1 rt) = butlast (buckets rt) @ [stay rt, moved rt]"
    using ne by (rule buckets_unfold1)
  have n1: "buckets (unfold1 rt) ! (?m - 1) = stay rt" and n2: "buckets (unfold1 rt) ! ?m = moved rt"
    using ne by (auto simp: b nth_append)
  have goal: "min ?c ?m = i"
  proof -
    consider "i < ?m - 1" | "i = ?m - 1" | "i = ?m"
      using i' by linarith
    then show ?thesis
    proof cases
      case 1
      with r have "r \<in> set (buckets rt ! i)"
        by (simp add: b nth_append nth_butlast)
      moreover from 1 have "i < ?m" by simp
      ultimately have "min ?c (?m - 1) = i"
        using a unfolding assigned_nth by blast
      with 1 show ?thesis
        by (simp add: min_def split: if_splits)
    next
      case 2
      with r n1 have s: "r \<in> set (stay rt)"
        by simp
      then have "r \<in> set (buckets rt ! (?m - 1))"
        using ne by (simp add: stay_eq last_conv_nth)
      moreover from m have "?m - 1 < ?m" by simp
      ultimately have "min ?c (?m - 1) = ?m - 1"
        using a unfolding assigned_nth by blast
      with s 2 show ?thesis
        by (simp add: stay_eq min_def split: if_splits)
    next
      case 3
      with r n2 have "r \<in> set (moved rt)"
        by simp
      with 3 show ?thesis
        by (simp add: moved_eq)
    qed
  qed
  with ne show "min (CommonPrefixLen (key r) (local (unfold1 rt))) (length (buckets (unfold1 rt)) - 1) = i"
    by (simp add: length_unfold1)
qed

lemma stay_moved: "set (stay rt) \<union> set (moved rt) = set (last (buckets rt))"
  by (auto simp: stay_eq moved_eq)

lemma placed_last: "buckets r \<noteq> [] \<Longrightarrow> placed r (unfold1 r)"
  by (cases "buckets r" rule: rev_cases) (simp_all add: placed_def buckets_unfold1 nth_append)

lemma placed_more:
  assumes ne: "buckets r \<noteq> []" and p: "placed (unfold1 r) r'"
  shows "placed r r'"
proof -
  let ?m = "length (buckets r)"
  let ?u = "unfold1 r"
  from ne have m: "0 < ?m" by simp
  have lu: "length (buckets ?u) = Suc ?m"
    using ne by (rule length_unfold1)
  have bu: "butlast (buckets ?u) = butlast (buckets r) @ [stay r]"
    using ne by (simp add: buckets_unfold1 butlast_append)
  have lastu: "last (buckets ?u) = moved r"
    using ne by (simp add: buckets_unfold1)
  from p have l: "Suc ?m < length (buckets r')"
    and t: "take ?m (buckets r') = butlast (buckets r) @ [stay r]"
    and n: "buckets r' ! ?m = stay ?u"
    and d: "\<Union> (set ` set (drop (Suc ?m) (buckets r'))) = set (moved ?u)"
    by (simp_all add: placed_def lu bu)
  have "take (?m - 1) (take ?m (buckets r')) = take (?m - 1) (buckets r')"
    by (simp add: min_def)
  with t have c2: "take (?m - 1) (buckets r') = butlast (buckets r)"
    by simp
  have "take ?m (buckets r') ! (?m - 1) = buckets r' ! (?m - 1)"
    using m by simp
  with t have c3: "buckets r' ! (?m - 1) = stay r"
    by (simp add: nth_append)
  from l have "drop ?m (buckets r') = buckets r' ! ?m # drop (Suc ?m) (buckets r')"
    by (simp add: Cons_nth_drop_Suc)
  then have "\<Union> (set ` set (drop ?m (buckets r'))) = set (stay ?u) \<union> set (moved ?u)"
    using n d by simp
  then have c4: "\<Union> (set ` set (drop ?m (buckets r'))) = set (moved r)"
    by (simp add: stay_moved lastu)
  from l c2 c3 c4 show ?thesis
    by (simp add: placed_def)
qed

lemma nextBucket_placed: "nextBucket rt = Some (Inr rt') \<Longrightarrow> placed rt rt'"
  by (erule nextBucket_induct) (auto intro: placed_last placed_more)

text \<open>
  Claim C2, as amended. When \<^verbatim>\<open>nextBucket\<close> returns on a table that satisfies the bucket
  assignment, the returned table satisfies it too. With \<open>d = m - 1\<close> the depth of the first
  split: the buckets before \<open>d\<close> are unchanged, the records of the old last bucket that share
  exactly \<open>d\<close> bits with the local key remain in bucket \<open>d\<close>, and those that share at least
  \<open>d + 1\<close> bits are the records of the buckets appended after it. There are \<open>m + 1\<close> buckets
  when fewer than \<open>bucketsize\<close> records moved, and more when the cascade went on.
\<close>

theorem nextBucket_assignment:
  assumes "assigned rt" and "nextBucket rt = Some (Inr rt')"
  shows "assigned rt'
     \<and> length (buckets rt) < length (buckets rt')
     \<and> take (length (buckets rt) - 1) (buckets rt') = butlast (buckets rt)
     \<and> buckets rt' ! (length (buckets rt) - 1) =
         filter (\<lambda>r. CommonPrefixLen (key r) (local rt) = length (buckets rt) - 1) (last (buckets rt))
     \<and> \<Union> (set ` set (drop (length (buckets rt)) (buckets rt'))) =
         {r \<in> set (last (buckets rt)). length (buckets rt) \<le> CommonPrefixLen (key r) (local rt)}
     \<and> (len (filter (\<lambda>r. length (buckets rt) \<le> CommonPrefixLen (key r) (local rt)) (last (buckets rt)))
           < bucketsize rt \<longrightarrow>
         length (buckets rt') = length (buckets rt) + 1)"
proof -
  let ?m = "length (buckets rt)"
  from nextBucket_post [OF assms(2)] have ne: "buckets rt \<noteq> []"
    by simp
  have c1: "assigned rt'"
    using assms(2,1) by (rule nextBucket_preserves) (rule assigned_unfold1)
  from nextBucket_placed [OF assms(2)] have
    c2: "?m < length (buckets rt')" and
    c3: "take (?m - 1) (buckets rt') = butlast (buckets rt)" and
    n: "buckets rt' ! (?m - 1) = stay rt" and
    d: "\<Union> (set ` set (drop ?m (buckets rt'))) = set (moved rt)"
    by (simp_all add: placed_def)
  have "stay rt = filter (\<lambda>r. CommonPrefixLen (key r) (local rt) = ?m - 1) (last (buckets rt))"
    unfolding stay_eq
  proof (rule filter_cong [OF refl])
    fix r assume "r \<in> set (last (buckets rt))"
    then have "r \<in> set (buckets rt ! (?m - 1))"
      using ne by (simp add: last_conv_nth)
    moreover from ne have "?m - 1 < ?m" by simp
    ultimately have "min (CommonPrefixLen (key r) (local rt)) (?m - 1) = ?m - 1"
      using assms(1) unfolding assigned_nth by blast
    with ne show "(CommonPrefixLen (key r) (local rt) < ?m) = (CommonPrefixLen (key r) (local rt) = ?m - 1)"
      by (cases "buckets rt") (auto simp: min_def split: if_splits)
  qed
  with n have c4: "buckets rt' ! (?m - 1) =
      filter (\<lambda>r. CommonPrefixLen (key r) (local rt) = ?m - 1) (last (buckets rt))"
    by simp
  from d have c5: "\<Union> (set ` set (drop ?m (buckets rt'))) =
      {r \<in> set (last (buckets rt)). ?m \<le> CommonPrefixLen (key r) (local rt)}"
    by (simp add: moved_eq)
  have c6: "length (buckets rt') = ?m + 1"
    if "len (filter (\<lambda>r. ?m \<le> CommonPrefixLen (key r) (local rt)) (last (buckets rt))) < bucketsize rt"
    using that assms(2) ne length_unfold1 [of rt]
    by (auto simp: nextBucket_step moved_eq [symmetric])
  from c1 c2 c3 c4 c5 c6 show ?thesis
    by blast
qed

theorem nextBucket_assignment_witness:
  "assigned (ex_table 2 [[ex_peer ''A'' 0, ex_peer ''B'' 0]])
   \<and> nextBucket (ex_table 2 [[ex_peer ''A'' 0, ex_peer ''B'' 0]])
       = Some (Inr (ex_table 2 [[ex_peer ''A'' 0], [ex_peer ''B'' 0]]))
   \<and> assigned (ex_table 2 [[ex_peer ''A'' 0], [ex_peer ''B'' 0]])"
proof -
  have a: "assigned (ex_table 2 [[ex_peer ''A'' 0, ex_peer ''B'' 0]])"
    by (simp add: assigned_def ex_defs ev)
  have h: "nextBucket (ex_table 2 [[ex_peer ''A'' 0, ex_peer ''B'' 0]])
       = Some (Inr (ex_table 2 [[ex_peer ''A'' 0], [ex_peer ''B'' 0]]))"
    by (simp add: nextBucket_step ex_defs ev)
  from nextBucket_assignment [OF a h] a h show ?thesis
    by blast
qed

text \<open>
  Claim C2 as stated fails in the direction of the split and in the number of buckets. In
  the table with the one bucket \<open>[A, B]\<close> and the bucket size 2, the record \<open>B\<close>, which shares
  one bit with the local key, is in the new bucket after \<^verbatim>\<open>nextBucket\<close> and the record \<open>A\<close>,
  which shares none, remains in bucket 0. In the table with the one bucket \<open>[B]\<close> and the
  bucket size 1 the cascade makes two splits, and there are three buckets afterwards.
\<close>

theorem nextBucket_direction_counterexample:
  "nextBucket (ex_table 2 [[ex_peer ''A'' 0, ex_peer ''B'' 0]])
       = Some (Inr (ex_table 2 [[ex_peer ''A'' 0], [ex_peer ''B'' 0]]))
   \<and> CommonPrefixLen (key (ex_peer ''A'' 0)) (local (ex_table 2 [[ex_peer ''A'' 0, ex_peer ''B'' 0]])) = 0
   \<and> CommonPrefixLen (key (ex_peer ''B'' 0)) (local (ex_table 2 [[ex_peer ''A'' 0, ex_peer ''B'' 0]])) = 1
   \<and> ex_peer ''B'' 0 \<notin> set (buckets (ex_table 2 [[ex_peer ''A'' 0], [ex_peer ''B'' 0]]) ! 0)
   \<and> ex_peer ''A'' 0 \<notin> set (buckets (ex_table 2 [[ex_peer ''A'' 0], [ex_peer ''B'' 0]]) ! 1)
   \<and> nextBucket (ex_table 1 [[ex_peer ''B'' 0]])
       = Some (Inr (ex_table 1 [[], [ex_peer ''B'' 0], []]))"
  by (simp add: nextBucket_step ex_defs ev)

section \<open>Staleness of a record that was never queried\<close>

lemma bitlen_maxDuration: "bitlen 9223372036854775807 = 63"
  by (simp add: bitlen_numeral bitlen_0 bitlen_1)

lemma round53_maxDuration: "round53 9223372036854775807 = 9223372036854775808"
  by (simp add: round53_def Let_def bitlen_maxDuration)

lemma Since_zero: "maxDuration \<le> now \<Longrightarrow> Since now 0 = maxDuration"
  by (simp add: Since_def Sub_def maxDuration_def minDuration_def)

text \<open>
  Claim C6, as amended. With the clock at least \<open>2^63 - 1\<close> nanoseconds after the zero Time
  (every date since the year 293), the age of a record whose \<^verbatim>\<open>lastSuccessfulOutboundQuery\<close>
  is the zero Time is the largest \<^verbatim>\<open>Duration\<close>, \<open>2^63 - 1\<close>, which \<^verbatim>\<open>float64\<close> rounds to
  \<open>2^63\<close>: the record is stale exactly when the threshold is below \<open>2^63\<close>.
\<close>

theorem never_queried_stale_iff:
  assumes "lastSuccessfulOutboundQuery pc = 0" and "maxDuration \<le> now"
  shows "stale rt now pc \<longleftrightarrow> maxLastSuccessfulOutboundThreshold rt < 2 ^ 63"
  using assms by (simp add: stale_def Since_zero float64_def maxDuration_def round53_maxDuration)

theorem never_queried_stale_iff_witness:
  "lastSuccessfulOutboundQuery (ex_peer ''A'' 0) = 0 \<and> maxDuration \<le> 64 * 10 ^ 18
   \<and> maxLastSuccessfulOutboundThreshold (ex_table 1 [[ex_peer ''A'' 0]]) < 2 ^ 63
   \<and> stale (ex_table 1 [[ex_peer ''A'' 0]]) (64 * 10 ^ 18) (ex_peer ''A'' 0)"
proof -
  have h1: "lastSuccessfulOutboundQuery (ex_peer ''A'' 0) = 0"
    by (simp add: ex_peer_def)
  have h2: "maxDuration \<le> 64 * 10 ^ 18"
    by (simp add: maxDuration_def)
  have h3: "maxLastSuccessfulOutboundThreshold (ex_table 1 [[ex_peer ''A'' 0]]) < 2 ^ 63"
    by (simp add: ex_table_def)
  show ?thesis
    using never_queried_stale_iff [OF h1 h2, of "ex_table 1 [[ex_peer ''A'' 0]]"] h1 h2 h3
    by blast
qed

text \<open>
  Claim C6 as stated fails: with the threshold \<open>2^64\<close> (a float64) a record that was never
  queried is not stale.
\<close>

theorem never_queried_not_stale_counterexample:
  "\<not> stale ((ex_table 1 [[ex_peer ''A'' 0]])\<lparr>maxLastSuccessfulOutboundThreshold := 2 ^ 64\<rparr>)
       (64 * 10 ^ 18) (ex_peer ''A'' 0)"
proof -
  have "Since (64 * 10 ^ 18) 0 = 2 ^ 63 - 1"
    by (simp add: Since_def Sub_def maxDuration_def minDuration_def)
  then show ?thesis
    by (simp add: stale_def ex_peer_def ex_table_def float64_def round53_maxDuration)
qed


section \<open>Bucket operations\<close>

lemma getPeer_None: "getPeer b q = None \<longleftrightarrow> q \<notin> Id ` set b"
  by (auto simp: getPeer_def find_None_iff)

lemma remove_head: "Id r = q \<Longrightarrow> remove (r # b) q = (True, b)"
  by simp

lemma remove_absent: "q \<notin> Id ` set b \<Longrightarrow> remove b q = (False, b)"
  by (induction b) auto

lemma remove_present: "q \<in> Id ` set b \<Longrightarrow> fst (remove b q) \<and> Suc (length (snd (remove b q))) = length b"
  by (induction b) (auto split: prod.splits)

lemma remove_fst: "fst (remove b q) \<longleftrightarrow> q \<in> Id ` set b"
  using remove_absent [of q b] remove_present [of q b] by (cases "q \<in> Id ` set b") auto

lemma remove_set: "set (snd (remove b q)) \<subseteq> set b"
  by (induction b) (auto split: prod.splits)

lemma remove_length: "length (snd (remove b q)) \<le> length b"
  by (induction b) (auto split: prod.splits)

lemma sweep_Some:
  "sweep rt now xs b = Some b' \<Longrightarrow>
     Suc (length b') = length b \<and> set b' \<subseteq> set b \<and> (\<exists>pc \<in> set xs. stale rt now pc)"
proof (induction xs arbitrary: b)
  case Nil
  then show ?case by simp
next
  case (Cons pc xs)
  show ?case
  proof (cases "stale rt now pc \<and> Id pc \<in> Id ` set b")
    case True
    with Cons.prems have "b' = snd (remove b (Id pc))"
      using remove_fst [of b "Id pc"] by (auto split: prod.splits)
    with True show ?thesis
      using remove_present [of "Id pc" b] remove_set [of b "Id pc"] by auto
  next
    case False
    with Cons.prems have "sweep rt now xs b = Some b'"
      using remove_absent [of "Id pc" b] by (auto split: if_splits)
    from Cons.IH [OF this] show ?thesis by auto
  qed
qed

text \<open>The sweep evicts the first stale record of the bucket.\<close>

lemma sweep_first_stale:
  "\<forall>pc \<in> set xs. \<not> stale rt now pc \<Longrightarrow> stale rt now pc \<Longrightarrow> Id pc \<in> Id ` set b \<Longrightarrow>
   sweep rt now (xs @ pc # ys) b = Some (snd (remove b (Id pc)))"
  using remove_fst [of b "Id pc"] by (induction xs) (auto split: prod.splits)

text \<open>A sweep over the bucket itself that evicts has removed the first stale record.\<close>

lemma sweep_Some_first:
  assumes "sweep rt now zs b = Some b'" and "set zs \<subseteq> set b"
  shows "\<exists>xs pc ys. zs = xs @ pc # ys \<and> (\<forall>x \<in> set xs. \<not> stale rt now x) \<and> stale rt now pc
      \<and> b' = snd (remove b (Id pc))"
  using assms
proof (induction zs)
  case Nil
  then show ?case by simp
next
  case (Cons z zs)
  show ?case
  proof (cases "stale rt now z")
    case True
    from Cons.prems(2) have "Id z \<in> Id ` set b" by auto
    then have "fst (remove b (Id z))" by (simp add: remove_fst)
    with Cons.prems(1) True have "b' = snd (remove b (Id z))"
      by (auto split: prod.splits)
    with True show ?thesis
      by (intro exI [of _ "[]"] exI [of _ z] exI [of _ zs]) simp
  next
    case False
    with Cons.prems have "sweep rt now zs b = Some b'" "set zs \<subseteq> set b"
      by auto
    from Cons.IH [OF this] obtain xs pc ys where
      "zs = xs @ pc # ys" "\<forall>x \<in> set xs. \<not> stale rt now x" "stale rt now pc" "b' = snd (remove b (Id pc))"
      by blast
    with False show ?thesis
      by (intro exI [of _ "z # xs"] exI [of _ pc] exI [of _ ys]) simp
  qed
qed

section \<open>Fields that the operations keep\<close>

lemma setBucket_simps [simp]:
  "local (setBucket rt i b) = local rt"
  "bucketsize (setBucket rt i b) = bucketsize rt"
  "notified (setBucket rt i b) = notified rt"
  "metrics (setBucket rt i b) = metrics rt"
  "maxLatency (setBucket rt i b) = maxLatency rt"
  "maxLastSuccessfulOutboundThreshold (setBucket rt i b) = maxLastSuccessfulOutboundThreshold rt"
  "rtRefreshInterval (setBucket rt i b) = rtRefreshInterval rt"
  "peerPingFnc (setBucket rt i b) = peerPingFnc rt"
  "peerConnectednessFnc (setBucket rt i b) = peerConnectednessFnc rt"
  "buckets (setBucket rt i b) = (buckets rt)[nat i := b]"
  by (simp_all add: setBucket_def)

lemma notify_simps [simp]:
  "local (notify rt e) = local rt"
  "bucketsize (notify rt e) = bucketsize rt"
  "notified (notify rt e) = notified rt @ [e]"
  "metrics (notify rt e) = metrics rt"
  "maxLatency (notify rt e) = maxLatency rt"
  "maxLastSuccessfulOutboundThreshold (notify rt e) = maxLastSuccessfulOutboundThreshold rt"
  "rtRefreshInterval (notify rt e) = rtRefreshInterval rt"
  "peerPingFnc (notify rt e) = peerPingFnc rt"
  "peerConnectednessFnc (notify rt e) = peerConnectednessFnc rt"
  "buckets (notify rt e) = buckets rt"
  by (simp_all add: notify_def)

lemma bucketIdForPeer_cong:
  "local rt' = local rt \<Longrightarrow> length (buckets rt') = length (buckets rt) \<Longrightarrow>
   bucketIdForPeer cv rt' q = bucketIdForPeer cv rt q"
  by (simp add: bucketIdForPeer_def Let_def)

lemma stale_cong:
  "maxLastSuccessfulOutboundThreshold rt' = maxLastSuccessfulOutboundThreshold rt \<Longrightarrow>
   stale rt' now pc = stale rt now pc"
  by (simp add: stale_def)

section \<open>Size\<close>

lemma sum_list_update_int:
  "i < length xs \<Longrightarrow> sum_list (map f (xs[i := x])) = sum_list (map f xs) - f (xs ! i) + (f x :: int)"
  by (induction xs arbitrary: i) (auto split: nat.splits)

lemma Size_setBucket:
  "nat i < length (buckets rt) \<Longrightarrow>
   Size (setBucket rt i b) = Size rt - len (buckets rt ! nat i) + len b"
  by (simp add: Size_def sum_list_update_int)

lemma Size_notify [simp]: "Size (notify rt e) = Size rt"
  by (simp add: Size_def)

lemma Size_unfold1: "buckets rt \<noteq> [] \<Longrightarrow> Size (unfold1 rt) = Size rt"
proof -
  assume ne: "buckets rt \<noteq> []"
  have "len (stay rt) + len (moved rt) = len (last (buckets rt))"
    using sum_length_filter_compl [of "\<lambda>r. CommonPrefixLen (key r) (local rt) < length (buckets rt)" "last (buckets rt)"]
    by (simp add: stay_eq moved_eq len_def not_less)
  moreover from ne have "buckets rt = butlast (buckets rt) @ [last (buckets rt)]"
    by simp
  then have "sum_list (map len (buckets rt)) =
      sum_list (map len (butlast (buckets rt) @ [last (buckets rt)]))"
    by simp
  then have "Size rt = sum_list (map len (butlast (buckets rt))) + len (last (buckets rt))"
    by (simp add: Size_def del: append_butlast_last_id)
  ultimately show ?thesis
    using ne by (simp add: Size_def buckets_unfold1)
qed

lemma Size_nextBucket: "nextBucket rt = Some (Inr rt') \<Longrightarrow> Size rt' = Size rt"
  by (erule nextBucket_preserves [where I = "\<lambda>r. Size r = Size rt"]) (simp_all add: Size_unfold1)

section \<open>Admission\<close>

lemma mkPeer_simps [simp]:
  "Id (mkPeer cv now q qp) = q"
  "key (mkPeer cv now q qp) = cv q"
  "lastSuccessfulOutboundQuery (mkPeer cv now q qp) = (if qp then now else 0)"
  by (simp_all add: mkPeer_def)

text \<open>
  An admission places the new record at the front of the bucket of the peer, in the table as
  it is or as \<^verbatim>\<open>nextBucket\<close> returned it; the bucket had room, or it was full and the sweep
  removed a record from it.
\<close>

lemma addPeer_admitted:
  assumes "addPeer cv now rt q qp = Some (Inr ((True, e), rt1))"
  shows "\<exists>rtm b. (rtm = rt \<or> nextBucket rt = Some (Inr rtm))
      \<and> 0 \<le> bucketIdForPeer cv rtm q \<and> nat (bucketIdForPeer cv rtm q) < length (buckets rtm)
      \<and> e = None
      \<and> rt1 = notify (setBucket rtm (bucketIdForPeer cv rtm q) (mkPeer cv now q qp # b)) (PeerAdded q)
      \<and> (b = buckets rtm ! nat (bucketIdForPeer cv rtm q) \<and> len b < bucketsize rt
         \<or> \<not> len (buckets rtm ! nat (bucketIdForPeer cv rtm q)) < bucketsize rt
           \<and> sweep rtm now (buckets rtm ! nat (bucketIdForPeer cv rtm q))
                (buckets rtm ! nat (bucketIdForPeer cv rtm q)) = Some b)"
proof -
  let ?new = "mkPeer cv now q qp"
  have adm: "admit r i b ?new = ((True, None), notify (setBucket r i (?new # b)) (PeerAdded q))"
    for r :: "'a word RoutingTable" and i b
    by (simp add: admit_def pushFront_def)
  have ev: "\<exists>b'. sweep r now b b = Some b'
      \<and> rt1 = notify (setBucket r i (?new # b')) (PeerAdded q) \<and> e = None"
    if "evict r now i b ?new = ((True, e), rt1)" for r :: "'a word RoutingTable" and i b
    using that by (auto simp: evict_def peers_def adm split: option.splits)
  let ?i = "bucketIdForPeer cv rt q"
  from assms obtain bucket where b: "idx (buckets rt) ?i = Inr bucket"
    by (auto simp: addPeer_def Let_def split: sum.splits)
  then have i: "0 \<le> ?i" "nat ?i < length (buckets rt)" "bucket = buckets rt ! nat ?i"
    by (simp_all add: idx_Inr)
  consider (direct) "len bucket < bucketsize rt" "admit rt ?i bucket ?new = ((True, e), rt1)"
    | (evicted) "\<not> len bucket < bucketsize rt" "evict rt now ?i bucket ?new = ((True, e), rt1)"
    | (unfolded) rtm bucket' where "nextBucket rt = Some (Inr rtm)"
        "idx (buckets rtm) (bucketIdForPeer cv rtm q) = Inr bucket'"
        "(if len bucket' < bucketsize rtm
          then admit rtm (bucketIdForPeer cv rtm q) bucket' ?new
          else evict rtm now (bucketIdForPeer cv rtm q) bucket' ?new)
         = ((True, e), rt1)"
    using assms b
    by (auto simp: addPeer_def Let_def split: if_splits sum.splits option.splits)
  then show ?thesis
  proof cases
    case direct
    with i show ?thesis
      by (intro exI [of _ rt] exI [of _ bucket]) (simp add: adm)
  next
    case evicted
    then obtain b' where "sweep rt now bucket bucket = Some b'"
      "rt1 = notify (setBucket rt ?i (?new # b')) (PeerAdded q)" "e = None"
      using ev [of rt ?i bucket] by auto
    with i evicted(1) show ?thesis
      by (intro exI [of _ rt] exI [of _ b']) simp
  next
    case unfolded
    let ?j = "bucketIdForPeer cv rtm q"
    from unfolded(2) have j: "0 \<le> ?j" "nat ?j < length (buckets rtm)" "bucket' = buckets rtm ! nat ?j"
      by (simp_all add: idx_Inr)
    from nextBucket_post [OF unfolded(1)] have k: "bucketsize rtm = bucketsize rt"
      by simp
    show ?thesis
    proof (cases "len bucket' < bucketsize rtm")
      case True
      with unfolded(1,3) j k show ?thesis
        by (intro exI [of _ rtm] exI [of _ bucket']) (simp add: adm)
    next
      case False
      with unfolded(3) obtain b' where "sweep rtm now bucket' bucket' = Some b'"
        "rt1 = notify (setBucket rtm ?j (?new # b')) (PeerAdded q)" "e = None"
        using ev [of rtm ?j bucket'] by auto
      with unfolded(1) j k False show ?thesis
        by (intro exI [of _ rtm] exI [of _ b']) simp
    qed
  qed
qed

text \<open>
  An index in range stays in range, and the bucket of a peer stays the same, when a bucket
  is replaced and a notification is recorded.
\<close>

lemma notify_setBucket_twice:
  "notify (setBucket (notify (setBucket r i b1) e1) i b2) e2 =
     r\<lparr>buckets := (buckets r)[nat i := b2], notified := notified r @ [e1, e2]\<rparr>"
  by (simp add: notify_def setBucket_def)

lemma removePeer_after_admit:
  assumes "nat (bucketIdForPeer cv r q) < length (buckets r)" and "0 \<le> bucketIdForPeer cv r q"
  shows "removePeer cv (notify (setBucket r (bucketIdForPeer cv r q) (mkPeer cv now q qp # b)) (PeerAdded q)) q =
     Inr (r\<lparr>buckets := (buckets r)[nat (bucketIdForPeer cv r q) := b],
             notified := notified r @ [PeerAdded q, PeerRemoved q]\<rparr>)"
proof -
  let ?i = "bucketIdForPeer cv r q"
  let ?r1 = "notify (setBucket r ?i (mkPeer cv now q qp # b)) (PeerAdded q)"
  have same: "bucketIdForPeer cv ?r1 q = ?i"
    by (rule bucketIdForPeer_cong) simp_all
  have at1: "idx ((buckets r)[nat ?i := mkPeer cv now q qp # b]) ?i = Inr (mkPeer cv now q qp # b)"
    using assms by (simp add: idx_def)
  show ?thesis
    by (simp add: removePeer_def Let_def same at1 notify_setBucket_twice)
qed

lemma Size_update:
  "i < length (buckets r) \<Longrightarrow>
   Size (r\<lparr>buckets := (buckets r)[i := b], notified := n\<rparr>) = Size r - len (buckets r ! i) + len b"
  by (simp add: Size_def sum_list_update_int)

text \<open>
  Claim C5, as amended. Whenever \<^verbatim>\<open>TryAddPeer(p, true)\<close> admits \<open>p\<close>, it has pushed the record of
  \<open>p\<close> at the front of the bucket of \<open>p\<close>, in the table as it was or as \<^verbatim>\<open>nextBucket\<close> unfolded
  it, and the \<^verbatim>\<open>RemovePeer(p)\<close> that follows removes exactly that record; the pair fires
  \<^verbatim>\<open>PeerAdded(p)\<close> and then \<^verbatim>\<open>PeerRemoved(p)\<close> and nothing else. When the bucket had room, the
  table after the pair is the (unfolded) table with its records as before the pair, and
  \<^verbatim>\<open>Size\<close> is restored. When the bucket was full, the first stale record of the bucket is
  evicted and missing after the pair, and \<^verbatim>\<open>Size\<close> is one less than before.
\<close>

theorem add_then_remove:
  assumes "TryAddPeer cv now rt q True = Some (Inr ((True, None), rt1))"
  shows "\<exists>rtm bucket.
      (rtm = rt \<or> nextBucket rt = Some (Inr rtm))
    \<and> idx (buckets rtm) (bucketIdForPeer cv rtm q) = Inr bucket
    \<and> (len bucket < bucketsize rt \<longrightarrow>
          rt1 = notify (setBucket rtm (bucketIdForPeer cv rtm q) (mkPeer cv now q True # bucket))
                  (PeerAdded q)
        \<and> RemovePeer cv rt1 q =
            Inr (rtm\<lparr>notified := notified rt @ [PeerAdded q, PeerRemoved q]\<rparr>)
        \<and> Size (rtm\<lparr>notified := notified rt @ [PeerAdded q, PeerRemoved q]\<rparr>) = Size rt)
    \<and> (\<not> len bucket < bucketsize rt \<longrightarrow>
          (\<exists>xs pc ys. bucket = xs @ pc # ys \<and> (\<forall>x \<in> set xs. \<not> stale rt now x) \<and> stale rt now pc
            \<and> rt1 = notify (setBucket rtm (bucketIdForPeer cv rtm q)
                          (mkPeer cv now q True # snd (remove bucket (Id pc)))) (PeerAdded q)
            \<and> RemovePeer cv rt1 q =
                Inr (rtm\<lparr>buckets := (buckets rtm)[nat (bucketIdForPeer cv rtm q) :=
                                    snd (remove bucket (Id pc))],
                        notified := notified rt @ [PeerAdded q, PeerRemoved q]\<rparr>)
            \<and> Size (rtm\<lparr>buckets := (buckets rtm)[nat (bucketIdForPeer cv rtm q) :=
                                    snd (remove bucket (Id pc))],
                        notified := notified rt @ [PeerAdded q, PeerRemoved q]\<rparr>) = Size rt - 1))"
proof -
  let ?new = "mkPeer cv now q True"
  from assms obtain rtm b where
    rtm: "rtm = rt \<or> nextBucket rt = Some (Inr rtm)" and
    i: "0 \<le> bucketIdForPeer cv rtm q" "nat (bucketIdForPeer cv rtm q) < length (buckets rtm)" and
    rt1: "rt1 = notify (setBucket rtm (bucketIdForPeer cv rtm q) (?new # b)) (PeerAdded q)" and
    b: "b = buckets rtm ! nat (bucketIdForPeer cv rtm q) \<and> len b < bucketsize rt
        \<or> \<not> len (buckets rtm ! nat (bucketIdForPeer cv rtm q)) < bucketsize rt
          \<and> sweep rtm now (buckets rtm ! nat (bucketIdForPeer cv rtm q))
               (buckets rtm ! nat (bucketIdForPeer cv rtm q)) = Some b"
    using addPeer_admitted [of cv now rt q True None rt1] by (auto simp: TryAddPeer_def)
  let ?i = "bucketIdForPeer cv rtm q"
  let ?bucket = "buckets rtm ! nat ?i"
  have at: "idx (buckets rtm) ?i = Inr ?bucket"
    using i by (simp add: idx_def)
  have n: "notified rtm = notified rt" and sm: "Size rtm = Size rt"
    and th: "maxLastSuccessfulOutboundThreshold rtm = maxLastSuccessfulOutboundThreshold rt"
    using rtm nextBucket_post [of rt rtm] Size_nextBucket [of rt rtm] by auto
  have r: "RemovePeer cv rt1 q =
      Inr (rtm\<lparr>buckets := (buckets rtm)[nat ?i := b],
              notified := notified rt @ [PeerAdded q, PeerRemoved q]\<rparr>)"
    using removePeer_after_admit [OF i(2,1), of now True b] by (simp add: RemovePeer_def rt1 n)
  have room: "rt1 = notify (setBucket rtm ?i (?new # ?bucket)) (PeerAdded q)
      \<and> RemovePeer cv rt1 q = Inr (rtm\<lparr>notified := notified rt @ [PeerAdded q, PeerRemoved q]\<rparr>)
      \<and> Size (rtm\<lparr>notified := notified rt @ [PeerAdded q, PeerRemoved q]\<rparr>) = Size rt"
    if "len ?bucket < bucketsize rt"
  proof -
    from b that have "b = ?bucket" by auto
    with r rt1 sm show ?thesis
      by (simp add: Size_def)
  qed
  have full: "\<exists>xs pc ys. ?bucket = xs @ pc # ys \<and> (\<forall>x \<in> set xs. \<not> stale rt now x) \<and> stale rt now pc
      \<and> rt1 = notify (setBucket rtm ?i (?new # snd (remove ?bucket (Id pc)))) (PeerAdded q)
      \<and> RemovePeer cv rt1 q =
          Inr (rtm\<lparr>buckets := (buckets rtm)[nat ?i := snd (remove ?bucket (Id pc))],
                  notified := notified rt @ [PeerAdded q, PeerRemoved q]\<rparr>)
      \<and> Size (rtm\<lparr>buckets := (buckets rtm)[nat ?i := snd (remove ?bucket (Id pc))],
                  notified := notified rt @ [PeerAdded q, PeerRemoved q]\<rparr>) = Size rt - 1"
    if "\<not> len ?bucket < bucketsize rt"
  proof -
    from b that have sw: "sweep rtm now ?bucket ?bucket = Some b" by auto
    from sweep_Some_first [OF sw] obtain xs pc ys where
      x: "?bucket = xs @ pc # ys" "\<forall>x \<in> set xs. \<not> stale rtm now x" "stale rtm now pc"
        "b = snd (remove ?bucket (Id pc))"
      by auto
    from x(1) have "Id pc \<in> Id ` set ?bucket"
      by (metis in_set_conv_decomp imageI)
    from remove_present [OF this] x(4) have "len b = len ?bucket - 1"
      by (simp add: len_def)
    with i(2) sm have "Size (rtm\<lparr>buckets := (buckets rtm)[nat ?i := b],
        notified := notified rt @ [PeerAdded q, PeerRemoved q]\<rparr>) = Size rt - 1"
      by (simp add: Size_update)
    with x r rt1 th show ?thesis
      by (intro exI [of _ xs] exI [of _ pc] exI [of _ ys]) (simp add: stale_def)
  qed
  from rtm at room full show ?thesis
    by (intro exI [of _ rtm] exI [of _ ?bucket]) blast
qed

lemma round53_small: "bitlen (nat \<bar>d\<bar>) \<le> 53 \<Longrightarrow> round53 d = d"
  by (simp add: round53_def Let_def)

lemmas run_defs = TryAddPeer_def addPeer_def RemovePeer_def removePeer_def bucketIdForPeer_def
  idx_def getPeer_def admit_def evict_def mkPeer_def pushFront_def peers_def notify_def Let_def
  nextBucket_step stale_def float64_def Since_def Sub_def maxDuration_def minDuration_def
  round53_small round53_maxDuration Size_def ListPeers_def peerIds_def

theorem add_then_remove_witness:
  "TryAddPeer ex_key 5 (ex_table 1 [[ex_peer ''A'' 0]]) ''B'' True =
     Some (Inr ((True, None),
       (ex_table 1 [[ex_peer ''A'' 0], [ex_peer ''B'' 5]])\<lparr>notified := [PeerAdded ''B'']\<rparr>))
   \<and> nextBucket (ex_table 1 [[ex_peer ''A'' 0]]) = Some (Inr (ex_table 1 [[ex_peer ''A'' 0], []]))
   \<and> RemovePeer ex_key
        ((ex_table 1 [[ex_peer ''A'' 0], [ex_peer ''B'' 5]])\<lparr>notified := [PeerAdded ''B'']\<rparr>) ''B'' =
       Inr ((ex_table 1 [[ex_peer ''A'' 0], []])\<lparr>notified := [PeerAdded ''B'', PeerRemoved ''B'']\<rparr>)
   \<and> Size ((ex_table 1 [[ex_peer ''A'' 0], []])\<lparr>notified := [PeerAdded ''B'', PeerRemoved ''B'']\<rparr>) =
       Size (ex_table 1 [[ex_peer ''A'' 0]])
   \<and> TryAddPeer ex_key (64 * 10 ^ 18) (ex_table 1 [[ex_peer ''A'' 0], []]) ''D'' True =
     Some (Inr ((True, None),
       (ex_table 1 [[ex_peer ''D'' (64 * 10 ^ 18)], []])\<lparr>notified := [PeerAdded ''D'']\<rparr>))
   \<and> stale (ex_table 1 [[ex_peer ''A'' 0], []]) (64 * 10 ^ 18) (ex_peer ''A'' 0)
   \<and> RemovePeer ex_key
        ((ex_table 1 [[ex_peer ''D'' (64 * 10 ^ 18)], []])\<lparr>notified := [PeerAdded ''D'']\<rparr>) ''D'' =
       Inr ((ex_table 1 [[], []])\<lparr>notified := [PeerAdded ''D'', PeerRemoved ''D'']\<rparr>)
   \<and> Size ((ex_table 1 [[], []])\<lparr>notified := [PeerAdded ''D'', PeerRemoved ''D'']\<rparr>) =
       Size (ex_table 1 [[ex_peer ''A'' 0], []]) - 1"
proof -
  have e1: "TryAddPeer ex_key 5 (ex_table 1 [[ex_peer ''A'' 0]]) ''B'' True =
     Some (Inr ((True, None),
       (ex_table 1 [[ex_peer ''A'' 0], [ex_peer ''B'' 5]])\<lparr>notified := [PeerAdded ''B'']\<rparr>))"
    by (simp add: run_defs ex_defs ev)
  have e2: "nextBucket (ex_table 1 [[ex_peer ''A'' 0]]) = Some (Inr (ex_table 1 [[ex_peer ''A'' 0], []]))"
    by (simp add: run_defs ex_defs ev)
  have e3: "RemovePeer ex_key
        ((ex_table 1 [[ex_peer ''A'' 0], [ex_peer ''B'' 5]])\<lparr>notified := [PeerAdded ''B'']\<rparr>) ''B'' =
       Inr ((ex_table 1 [[ex_peer ''A'' 0], []])\<lparr>notified := [PeerAdded ''B'', PeerRemoved ''B'']\<rparr>)"
    by (simp add: run_defs ex_defs ev)
  have e4: "Size ((ex_table 1 [[ex_peer ''A'' 0], []])\<lparr>notified := [PeerAdded ''B'', PeerRemoved ''B'']\<rparr>) =
       Size (ex_table 1 [[ex_peer ''A'' 0]])"
    by (simp add: run_defs ex_defs ev)
  have e5: "TryAddPeer ex_key (64 * 10 ^ 18) (ex_table 1 [[ex_peer ''A'' 0], []]) ''D'' True =
     Some (Inr ((True, None),
       (ex_table 1 [[ex_peer ''D'' (64 * 10 ^ 18)], []])\<lparr>notified := [PeerAdded ''D'']\<rparr>))"
    by (simp add: run_defs ex_defs ev)
  have e6: "stale (ex_table 1 [[ex_peer ''A'' 0], []]) (64 * 10 ^ 18) (ex_peer ''A'' 0)"
    by (simp add: run_defs ex_defs ev)
  have e7: "RemovePeer ex_key
        ((ex_table 1 [[ex_peer ''D'' (64 * 10 ^ 18)], []])\<lparr>notified := [PeerAdded ''D'']\<rparr>) ''D'' =
       Inr ((ex_table 1 [[], []])\<lparr>notified := [PeerAdded ''D'', PeerRemoved ''D'']\<rparr>)"
    by (simp add: run_defs ex_defs ev)
  have e8: "Size ((ex_table 1 [[], []])\<lparr>notified := [PeerAdded ''D'', PeerRemoved ''D'']\<rparr>) =
       Size (ex_table 1 [[ex_peer ''A'' 0], []]) - 1"
    by (simp add: run_defs ex_defs ev)
  from add_then_remove [OF e1] add_then_remove [OF e5] e1 e2 e3 e4 e5 e6 e7 e8 show ?thesis
    by blast
qed

text \<open>
  Claim C5 as stated fails for a peer that is already in the table: \<^verbatim>\<open>TryAddPeer\<close> returns
  \<open>(false, nil)\<close> and fires nothing, \<^verbatim>\<open>RemovePeer\<close> removes the peer, and \<^verbatim>\<open>Size\<close> falls from 1
  to 0.
\<close>

theorem add_then_remove_present_counterexample:
  "TryAddPeer ex_key 5 (ex_table 2 [[ex_peer ''A'' 0]]) ''A'' True =
     Some (Inr ((False, None), ex_table 2 [[ex_peer ''A'' 0]]))
   \<and> RemovePeer ex_key (ex_table 2 [[ex_peer ''A'' 0]]) ''A'' =
     Inr ((ex_table 2 [[]])\<lparr>notified := [PeerRemoved ''A'']\<rparr>)
   \<and> Size (ex_table 2 [[ex_peer ''A'' 0]]) = 1
   \<and> Size ((ex_table 2 [[]])\<lparr>notified := [PeerRemoved ''A'']\<rparr>) = 0"
  by (simp add: run_defs ex_defs ev)

text \<open>
  Claim C1, as amended. \<^verbatim>\<open>addPeer\<close> has no test for the local peer: a peer whose key is the
  local key has the common prefix length of the key width, so its bucket is the one with
  the index \<open>min width (m - 1)\<close>; when it is not in that bucket, its latency is acceptable and
  the bucket has room, \<^verbatim>\<open>TryAddPeer\<close> admits it for either value of \<open>queryPeer\<close>: it returns
  \<open>(true, nil)\<close>, pushes the record at the front of the bucket and fires \<^verbatim>\<open>PeerAdded\<close>.
\<close>

theorem TryAddPeer_admits_local:
  fixes ConvertPeerID :: "string \<Rightarrow> 'w::len word"
  assumes "ConvertPeerID q = local rt"
    and "idx (buckets rt) (bucketIdForPeer ConvertPeerID rt q) = Inr bucket"
    and "q \<notin> Id ` set bucket"
    and "metrics rt q \<le> maxLatency rt"
    and "len bucket < bucketsize rt"
  shows "bucketIdForPeer ConvertPeerID rt q = min (int LENGTH('w)) (int (length (buckets rt)) - 1)
    \<and> (\<exists>rt'. TryAddPeer ConvertPeerID now rt q queryPeer = Some (Inr ((True, None), rt'))
        \<and> buckets rt' = (buckets rt)[nat (bucketIdForPeer ConvertPeerID rt q) :=
                           mkPeer ConvertPeerID now q queryPeer # bucket]
        \<and> notified rt' = notified rt @ [PeerAdded q]
        \<and> q \<in> set (ListPeers rt'))"
proof -
  let ?i = "bucketIdForPeer ConvertPeerID rt q"
  let ?rt' = "notify (setBucket rt ?i (mkPeer ConvertPeerID now q queryPeer # bucket)) (PeerAdded q)"
  have "CommonPrefixLen (ConvertPeerID q) (local rt) = LENGTH('w)"
    by (simp add: assms(1) CommonPrefixLen_def bitlen_0)
  then have c1: "?i = min (int LENGTH('w)) (int (length (buckets rt)) - 1)"
    by (simp add: bucketIdForPeer_def Let_def min_def)
  have t: "TryAddPeer ConvertPeerID now rt q queryPeer = Some (Inr ((True, None), ?rt'))"
    using assms by (simp add: TryAddPeer_def addPeer_def Let_def getPeer_None admit_def pushFront_def)
  from assms(2) have i: "nat ?i < length (buckets rt)"
    by (simp add: idx_Inr)
  then have "mkPeer ConvertPeerID now q queryPeer # bucket \<in> set (buckets ?rt')"
    by (simp add: set_update_memI)
  then have "q \<in> set (ListPeers ?rt')"
    unfolding ListPeers_def peerIds_def by (force simp del: setBucket_simps notify_simps)
  with c1 t show ?thesis
    by (intro conjI exI [of _ ?rt']) simp_all
qed

theorem TryAddPeer_admits_local_witness:
  "ex_key ''me'' = local (ex_table 1 [[]])
   \<and> idx (buckets (ex_table 1 [[]])) (bucketIdForPeer ex_key (ex_table 1 [[]]) ''me'') = Inr []
   \<and> metrics (ex_table 1 [[]]) ''me'' \<le> maxLatency (ex_table 1 [[]])
   \<and> len [] < bucketsize (ex_table 1 [[]])
   \<and> bucketIdForPeer ex_key (ex_table 1 [[]]) ''me'' = 0
   \<and> TryAddPeer ex_key 5 (ex_table 1 [[]]) ''me'' True =
       Some (Inr ((True, None), (ex_table 1 [[ex_peer ''me'' 5]])\<lparr>notified := [PeerAdded ''me'']\<rparr>))"
proof -
  have h1: "ex_key ''me'' = local (ex_table 1 [[]])"
    by (simp add: ex_defs)
  have h2: "idx (buckets (ex_table 1 [[]])) (bucketIdForPeer ex_key (ex_table 1 [[]]) ''me'') = Inr []"
    by (simp add: run_defs ex_defs ev)
  have h3: "''me'' \<notin> Id ` set ([] :: 4 word bucket)"
    by simp
  have h4: "metrics (ex_table 1 [[]]) ''me'' \<le> maxLatency (ex_table 1 [[]])"
    by (simp add: ex_defs)
  have h5: "len [] < bucketsize (ex_table 1 [[]])"
    by (simp add: ex_defs len_def)
  have t: "TryAddPeer ex_key 5 (ex_table 1 [[]]) ''me'' True =
       Some (Inr ((True, None), (ex_table 1 [[ex_peer ''me'' 5]])\<lparr>notified := [PeerAdded ''me'']\<rparr>))"
    by (simp add: run_defs ex_defs ev)
  from TryAddPeer_admits_local [OF h1 h2 h3 h4 h5, of 5 True]
  have "bucketIdForPeer ex_key (ex_table 1 [[]]) ''me'' = 0"
    by (simp add: ex_defs)
  with h1 h2 h4 h5 t show ?thesis
    by blast
qed

text \<open>
  Claim C1 as stated fails: on the table that \<^verbatim>\<open>NewRoutingTable\<close> returns for the local key
  \<open>0000\<close> and the bucket size 1, \<^verbatim>\<open>TryAddPeer\<close> of the local peer returns \<open>(true, nil)\<close> and
  the local peer is in the bucket.
\<close>

theorem TryAddPeer_local_counterexample:
  "NewRoutingTable 1 (ex_key ''me'') 10 ex_metrics 100 30 (Some ex_ping) (Some ex_connected) =
     Inr (ex_table 1 [[]])
   \<and> TryAddPeer ex_key 5 (ex_table 1 [[]]) ''me'' False =
       Some (Inr ((True, None), (ex_table 1 [[ex_peer ''me'' 0]])\<lparr>notified := [PeerAdded ''me'']\<rparr>))
   \<and> ListPeers ((ex_table 1 [[ex_peer ''me'' 0]])\<lparr>notified := [PeerAdded ''me'']\<rparr>) = [''me'']"
  by (simp add: NewRoutingTable_def newBucket_def run_defs ex_defs ev)

text \<open>
  Claim C3 fails on the code: the table has the bucket size 1, bucket 0 holds \<open>A\<close>, which was
  never queried, and is not the last bucket. \<^verbatim>\<open>TryAddPeer(D, true)\<close> evicts \<open>A\<close>, pushes \<open>D\<close> and
  returns \<open>(true, nil)\<close>, and the only notification is \<^verbatim>\<open>PeerAdded(D)\<close>: \<^verbatim>\<open>PeerRemoved(A)\<close> is
  not fired.
\<close>

theorem eviction_fires_no_PeerRemoved:
  "TryAddPeer ex_key (64 * 10 ^ 18) (ex_table 1 [[ex_peer ''A'' 0], []]) ''D'' True =
     Some (Inr ((True, None),
       (ex_table 1 [[ex_peer ''D'' (64 * 10 ^ 18)], []])\<lparr>notified := [PeerAdded ''D'']\<rparr>))"
  by (simp add: run_defs ex_defs ev)


section \<open>Rejection\<close>

lemma addPeer_rejected:
  assumes "addPeer cv now rt q qp = Some (Inr ((False, e), rt'))"
  shows "rt' = rt \<or> nextBucket rt = Some (Inr rt')"
proof -
  have ev: "r' = r" if "evict r now i b new = ((False, e), r')"
    for r r' :: "'a word RoutingTable" and i b new
    using that by (auto simp: evict_def admit_def split: option.splits)
  from assms obtain bucket where b: "idx (buckets rt) (bucketIdForPeer cv rt q) = Inr bucket"
    by (auto simp: addPeer_def Let_def split: sum.splits)
  from assms b show ?thesis
    by (auto simp: addPeer_def Let_def admit_def split: if_splits sum.splits option.splits dest: ev)
qed

section \<open>Capacity\<close>

lemma capacity_setBucket:
  "capacity rt \<Longrightarrow> len b \<le> bucketsize rt \<Longrightarrow> capacity (setBucket rt i b)"
  unfolding capacity_def using set_update_subset_insert [of "buckets rt" "nat i" b] by auto

lemma capacity_notify [simp]: "capacity (notify rt e) = capacity rt"
  by (simp add: capacity_def)

lemma capacity_unfold1: "buckets rt \<noteq> [] \<Longrightarrow> capacity rt \<Longrightarrow> capacity (unfold1 rt)"
proof -
  assume ne: "buckets rt \<noteq> []" and c: "capacity rt"
  from ne have "last (buckets rt) \<in> set (buckets rt)" by simp
  with c have l: "len (last (buckets rt)) \<le> bucketsize rt"
    by (simp add: capacity_def)
  have "len (stay rt) \<le> len (last (buckets rt))" "len (moved rt) \<le> len (last (buckets rt))"
    by (simp_all add: stay_eq moved_eq len_def)
  with l have "len (stay rt) \<le> bucketsize rt" "len (moved rt) \<le> bucketsize rt"
    by simp_all
  moreover have "set (butlast (buckets rt)) \<subseteq> set (buckets rt)"
    by (auto dest: in_set_butlastD)
  ultimately show ?thesis
    using c ne by (auto simp: capacity_def buckets_unfold1)
qed

lemma capacity_nth: "capacity rt \<Longrightarrow> i < length (buckets rt) \<Longrightarrow> len (buckets rt ! i) \<le> bucketsize rt"
  by (simp add: capacity_def)

lemma capacity_nextBucket: "nextBucket rt = Some (Inr rt') \<Longrightarrow> capacity rt \<Longrightarrow> capacity rt'"
  by (erule nextBucket_preserves) (simp_all add: capacity_unfold1)

lemma capacity_addPeer:
  assumes "addPeer cv now rt q qp = Some (Inr (res, rt'))" and "capacity rt"
  shows "capacity rt' \<and> bucketsize rt' = bucketsize rt"
proof (cases res)
  case (Pair ok e)
  show ?thesis
  proof (cases ok)
    case False
    with assms Pair have "rt' = rt \<or> nextBucket rt = Some (Inr rt')"
      using addPeer_rejected [of cv now rt q qp e rt'] by simp
    with assms(2) show ?thesis
      using capacity_nextBucket [of rt rt'] nextBucket_post [of rt rt'] by auto
  next
    case True
    with assms(1) Pair obtain rtm b where
      rtm: "rtm = rt \<or> nextBucket rt = Some (Inr rtm)" and
      i: "nat (bucketIdForPeer cv rtm q) < length (buckets rtm)" and
      rt': "rt' = notify (setBucket rtm (bucketIdForPeer cv rtm q) (mkPeer cv now q qp # b)) (PeerAdded q)" and
      b: "b = buckets rtm ! nat (bucketIdForPeer cv rtm q) \<and> len b < bucketsize rt
        \<or> \<not> len (buckets rtm ! nat (bucketIdForPeer cv rtm q)) < bucketsize rt
          \<and> sweep rtm now (buckets rtm ! nat (bucketIdForPeer cv rtm q))
             (buckets rtm ! nat (bucketIdForPeer cv rtm q)) = Some b"
      using addPeer_admitted [of cv now rt q qp e rt'] by auto
    from rtm assms(2) have c: "capacity rtm" and k: "bucketsize rtm = bucketsize rt"
      using capacity_nextBucket [of rt rtm] nextBucket_post [of rt rtm] by auto
    from b have "len (mkPeer cv now q qp # b) \<le> bucketsize rtm"
    proof
      assume "b = buckets rtm ! nat (bucketIdForPeer cv rtm q) \<and> len b < bucketsize rt"
      then show ?thesis by (auto simp: len_def k)
    next
      assume "\<not> len (buckets rtm ! nat (bucketIdForPeer cv rtm q)) < bucketsize rt
          \<and> sweep rtm now (buckets rtm ! nat (bucketIdForPeer cv rtm q))
             (buckets rtm ! nat (bucketIdForPeer cv rtm q)) = Some b"
      then have "sweep rtm now (buckets rtm ! nat (bucketIdForPeer cv rtm q))
             (buckets rtm ! nat (bucketIdForPeer cv rtm q)) = Some b"
        by simp
      from sweep_Some [OF this] capacity_nth [OF c i] show ?thesis
        by (simp add: len_def)
    qed
    with c k show ?thesis
      by (simp add: rt' capacity_setBucket)
  qed
qed

lemma capacity_removePeer:
  assumes "removePeer cv rt q = Inr rt'" and "capacity rt"
  shows "capacity rt' \<and> bucketsize rt' = bucketsize rt"
proof -
  let ?i = "bucketIdForPeer cv rt q"
  from assms(1) obtain bucket where b: "idx (buckets rt) ?i = Inr bucket"
    by (auto simp: removePeer_def Let_def split: sum.splits)
  then have "nat ?i < length (buckets rt)" "bucket = buckets rt ! nat ?i"
    by (simp_all add: idx_Inr)
  with assms(2) have "len bucket \<le> bucketsize rt"
    by (simp add: capacity_nth)
  with remove_length [of bucket q] have "len (snd (remove bucket q)) \<le> bucketsize rt"
    by (simp add: len_def)
  with assms b show ?thesis
    by (auto simp: removePeer_def Let_def capacity_setBucket split: prod.splits if_splits)
qed

lemma length_setLast [simp]: "length (setLast b q t) = length b"
  by (induction b) auto

lemma capacity_Update:
  assumes "UpdateLastSuccessfulOutboundQuery cv rt q t = Inr (ok, rt')" and "capacity rt"
  shows "capacity rt' \<and> bucketsize rt' = bucketsize rt"
proof -
  let ?i = "bucketIdForPeer cv rt q"
  from assms(1) obtain bucket where b: "idx (buckets rt) ?i = Inr bucket"
    by (auto simp: UpdateLastSuccessfulOutboundQuery_def Let_def split: sum.splits)
  then have "nat ?i < length (buckets rt)" "bucket = buckets rt ! nat ?i"
    by (simp_all add: idx_Inr)
  with assms(2) have "len (setLast bucket q t) \<le> bucketsize rt"
    using capacity_nth [of rt "nat ?i"] by (simp add: len_def)
  with assms b show ?thesis
    by (auto simp: UpdateLastSuccessfulOutboundQuery_def Let_def capacity_setBucket split: if_splits)
qed

lemma capacity_checkPeer:
  assumes "checkPeer cv now rt ps = Inr rt'" and "capacity rt"
  shows "capacity rt' \<and> bucketsize rt' = bucketsize rt"
  using assms capacity_removePeer [of cv rt "Id ps" rt']
  by (auto simp: checkPeer_def split: if_splits option.splits)

lemma capacity_step:
  assumes "step cv rt x = Some (Inr rt')" and "capacity rt"
  shows "capacity rt' \<and> bucketsize rt' = bucketsize rt"
proof (cases x)
  case (OpTryAddPeer q qp now)
  with assms(1) obtain z where z: "addPeer cv now rt q qp = Some z" "map_sum id snd z = Inr rt'"
    by (simp add: TryAddPeer_def) blast
  from z(2) obtain y where "z = Inr y" "snd y = rt'"
    by (cases z) simp_all
  with z(1) have "addPeer cv now rt q qp = Some (Inr (fst y, rt'))"
    by (cases y) simp
  from this assms(2) show ?thesis by (rule capacity_addPeer)
next
  case (OpRemovePeer q)
  with assms(1) have "removePeer cv rt q = Inr rt'"
    by (simp add: RemovePeer_def)
  from this assms(2) show ?thesis by (rule capacity_removePeer)
next
  case (OpUpdateLastSuccessfulOutboundQuery q t)
  with assms(1) have "map_sum id snd (UpdateLastSuccessfulOutboundQuery cv rt q t) = Inr rt'"
    by simp
  then obtain y where "UpdateLastSuccessfulOutboundQuery cv rt q t = Inr y" "snd y = rt'"
    by (cases "UpdateLastSuccessfulOutboundQuery cv rt q t") simp_all
  then have "UpdateLastSuccessfulOutboundQuery cv rt q t = Inr (fst y, rt')"
    by (cases y) simp
  from this assms(2) show ?thesis by (rule capacity_Update)
next
  case (OpCheckPeer ps now)
  with assms(1) have "checkPeer cv now rt ps = Inr rt'"
    by simp
  from this assms(2) show ?thesis by (rule capacity_checkPeer)
qed

lemma run_Cons_Inr:
  assumes "run cv rt (x # ops) = Some (Inr rt')"
  obtains rt1 where "step cv rt x = Some (Inr rt1)" "run cv rt1 ops = Some (Inr rt')"
proof (cases "step cv rt x")
  case None
  with assms show ?thesis by simp
next
  case (Some y)
  with assms that show ?thesis by (cases y) simp_all
qed

lemma capacity_run:
  "run cv rt ops = Some (Inr rt') \<Longrightarrow> capacity rt \<Longrightarrow> capacity rt' \<and> bucketsize rt' = bucketsize rt"
proof (induction ops arbitrary: rt)
  case Nil
  then show ?case by simp
next
  case (Cons x ops)
  from Cons.prems(1) obtain rt1 where s: "step cv rt x = Some (Inr rt1)" and r: "run cv rt1 ops = Some (Inr rt')"
    by (rule run_Cons_Inr)
  from capacity_step [OF s Cons.prems(2)] have "capacity rt1" "bucketsize rt1 = bucketsize rt"
    by simp_all
  with Cons.IH [OF r] show ?case by simp
qed

text \<open>
  Claim C7, as amended. For a bucket size that is not negative, in every state that a
  sequence of \<^verbatim>\<open>TryAddPeer\<close>, \<^verbatim>\<open>RemovePeer\<close>, \<^verbatim>\<open>UpdateLastSuccessfulOutboundQuery\<close> and
  liveness checks reaches from the table that \<^verbatim>\<open>NewRoutingTable\<close> returns, every bucket, the
  last one included, holds at most \<open>k\<close> records.
\<close>

theorem capacity_invariant:
  assumes "NewRoutingTable k localID latency m threshold interval ping connectedness = Inr rt0"
    and "0 \<le> k"
    and "run cv rt0 ops = Some (Inr rt)"
  shows "bucketsize rt = k \<and> (\<forall>b \<in> set (buckets rt). len b \<le> k)"
proof -
  from assms(1) have "buckets rt0 = [[]]" "bucketsize rt0 = k"
    by (auto simp: NewRoutingTable_def newBucket_def split: option.splits)
  with assms(2) have "capacity rt0"
    by (simp add: capacity_def len_def)
  from capacity_run [OF assms(3) this] \<open>bucketsize rt0 = k\<close> show ?thesis
    by (auto simp: capacity_def)
qed

theorem capacity_invariant_witness:
  "NewRoutingTable 2 (ex_key ''me'') 10 ex_metrics 100 30 (Some ex_ping) (Some ex_connected) =
     Inr (ex_table 2 [[]])
   \<and> (0 :: int) \<le> 2
   \<and> run ex_key (ex_table 2 [[]])
        [OpTryAddPeer ''A'' False 5, OpTryAddPeer ''B'' False 5, OpTryAddPeer ''C'' False 5] =
       Some (Inr ((ex_table 2 [[ex_peer ''A'' 0], [ex_peer ''C'' 0, ex_peer ''B'' 0]])
               \<lparr>notified := [PeerAdded ''A'', PeerAdded ''B'', PeerAdded ''C'']\<rparr>))
   \<and> len [ex_peer ''A'' 0] \<le> 2 \<and> len [ex_peer ''C'' 0, ex_peer ''B'' 0] \<le> 2"
proof -
  have h1: "NewRoutingTable 2 (ex_key ''me'') 10 ex_metrics 100 30 (Some ex_ping) (Some ex_connected) =
     Inr (ex_table 2 [[]])"
    by (simp add: NewRoutingTable_def newBucket_def ex_defs)
  have h2: "(0 :: int) \<le> 2"
    by simp
  have h3: "run ex_key (ex_table 2 [[]])
        [OpTryAddPeer ''A'' False 5, OpTryAddPeer ''B'' False 5, OpTryAddPeer ''C'' False 5] =
       Some (Inr ((ex_table 2 [[ex_peer ''A'' 0], [ex_peer ''C'' 0, ex_peer ''B'' 0]])
               \<lparr>notified := [PeerAdded ''A'', PeerAdded ''B'', PeerAdded ''C'']\<rparr>))"
    by (simp add: run_defs ex_defs ev)
  from capacity_invariant [OF h1 h2 h3]
  have "len [ex_peer ''A'' 0] \<le> 2 \<and> len [ex_peer ''C'' 0, ex_peer ''B'' 0] \<le> 2"
    by (simp add: ex_table_def)
  with h1 h2 h3 show ?thesis
    by blast
qed

text \<open>
  Claim C7 as stated fails for a negative bucket size, which \<^verbatim>\<open>NewRoutingTable\<close> accepts: with
  \<open>bucketsize = -1\<close> the admission of a peer with too high a latency returns
  \<open>(false, ErrPeerRejectedHighLatency)\<close>, and the last bucket, with no record, is longer than
  \<open>bucketsize\<close>.
\<close>

theorem capacity_negative_counterexample:
  "NewRoutingTable (- 1) (ex_key ''me'') 10 ex_metrics 100 30 (Some ex_ping) (Some ex_connected) =
     Inr (ex_table (- 1) [[]])
   \<and> TryAddPeer ex_key 5 (ex_table (- 1) [[]]) ''slow'' False =
       Some (Inr ((False, Some ErrPeerRejectedHighLatency), ex_table (- 1) [[]]))
   \<and> \<not> len (last (buckets (ex_table (- 1) [[]]))) \<le> bucketsize (ex_table (- 1) [[]])"
  by (simp add: NewRoutingTable_def newBucket_def run_defs ex_defs ev)

section \<open>The liveness loop\<close>

lemma bucketIdForPeer_range:
  "buckets rt \<noteq> [] \<Longrightarrow>
   0 \<le> bucketIdForPeer cv rt q \<and> nat (bucketIdForPeer cv rt q) < length (buckets rt)"
  by (cases "buckets rt") (auto simp: bucketIdForPeer_def Let_def)

lemma setBucket_same: "setBucket rt i (buckets rt ! nat i) = rt"
  by (simp add: setBucket_def)

lemma filter_remove_other:
  "q \<noteq> q' \<Longrightarrow> filter (\<lambda>r. Id r = q) (snd (remove b q')) = filter (\<lambda>r. Id r = q) b"
  by (induction b) (auto split: prod.splits)

lemma map_update_same: "(map f xs)[i := f (xs ! i)] = map f xs"
  by (simp add: map_update [symmetric])

lemma removePeer_cases:
  assumes "buckets rt \<noteq> []"
  shows "removePeer cv rt q = Inr rt \<and> q \<notin> Id ` set (buckets rt ! nat (bucketIdForPeer cv rt q))
    \<or> (\<exists>rt'. removePeer cv rt q = Inr rt' \<and> q \<in> set (ListPeers rt)
          \<and> notified rt' = notified rt @ [PeerRemoved q]
          \<and> length (buckets rt') = length (buckets rt)
          \<and> peerPingFnc rt' = peerPingFnc rt \<and> peerConnectednessFnc rt' = peerConnectednessFnc rt
          \<and> rtRefreshInterval rt' = rtRefreshInterval rt
          \<and> (\<forall>p. p \<noteq> q \<longrightarrow> map (filter (\<lambda>r. Id r = p)) (buckets rt') =
                             map (filter (\<lambda>r. Id r = p)) (buckets rt)))"
proof -
  let ?i = "bucketIdForPeer cv rt q"
  let ?b = "buckets rt ! nat ?i"
  from bucketIdForPeer_range [OF assms] have i: "0 \<le> ?i" "nat ?i < length (buckets rt)"
    by simp_all
  then have at: "idx (buckets rt) ?i = Inr ?b"
    by (simp add: idx_def)
  show ?thesis
  proof (cases "q \<in> Id ` set ?b")
    case False
    then have "remove ?b q = (False, ?b)"
      by (rule remove_absent)
    with False show ?thesis
      by (simp add: removePeer_def Let_def at setBucket_same)
  next
    case True
    then have f: "fst (remove ?b q)"
      by (simp add: remove_fst)
    let ?rt' = "notify (setBucket rt ?i (snd (remove ?b q))) (PeerRemoved q)"
    from f have r: "removePeer cv rt q = Inr ?rt'"
      by (simp add: removePeer_def Let_def at case_prod_beta)
    from i(2) have "?b \<in> set (buckets rt)"
      by simp
    with True have l: "q \<in> set (ListPeers rt)"
      by (auto simp: ListPeers_def peerIds_def)
    have o: "map (filter (\<lambda>r. Id r = p)) (buckets ?rt') = map (filter (\<lambda>r. Id r = p)) (buckets rt)"
      if "p \<noteq> q" for p
      using that i(2) by (simp add: map_update filter_remove_other map_update_same)
    from r l o show ?thesis
      by (intro disjI2 exI [of _ ?rt']) simp
  qed
qed

lemma checkPeer_step:
  assumes "buckets rt \<noteq> []"
  shows "\<exists>rt'. checkPeer cv now rt ps = Inr rt' \<and> buckets rt' \<noteq> []
     \<and> peerPingFnc rt' = peerPingFnc rt \<and> peerConnectednessFnc rt' = peerConnectednessFnc rt
     \<and> (rt' = rt
        \<or> quo (rtRefreshInterval rt) 3 < Since now (lastSuccessfulOutboundQuery ps)
          \<and> peerPingFnc rt (Id ps) \<noteq> None
          \<and> \<not> peerConnectednessFnc rt (Id ps)
          \<and> Id ps \<in> set (ListPeers rt)
          \<and> notified rt' = notified rt @ [PeerRemoved (Id ps)]
          \<and> (\<forall>p. p \<noteq> Id ps \<longrightarrow> map (filter (\<lambda>r. Id r = p)) (buckets rt') =
                               map (filter (\<lambda>r. Id r = p)) (buckets rt)))"
proof (cases "quo (rtRefreshInterval rt) 3 < Since now (lastSuccessfulOutboundQuery ps)
    \<and> peerPingFnc rt (Id ps) \<noteq> None \<and> \<not> peerConnectednessFnc rt (Id ps)")
  case False
  then have "checkPeer cv now rt ps = Inr rt"
    by (auto simp: checkPeer_def split: option.splits)
  with assms show ?thesis
    by simp
next
  case True
  then have c: "checkPeer cv now rt ps = removePeer cv rt (Id ps)"
    by (auto simp: checkPeer_def split: option.splits)
  from removePeer_cases [OF assms, of cv "Id ps"] show ?thesis
  proof
    assume "removePeer cv rt (Id ps) = Inr rt
      \<and> Id ps \<notin> Id ` set (buckets rt ! nat (bucketIdForPeer cv rt (Id ps)))"
    with c assms show ?thesis
      by simp
  next
    assume "\<exists>rt'. removePeer cv rt (Id ps) = Inr rt' \<and> Id ps \<in> set (ListPeers rt)
          \<and> notified rt' = notified rt @ [PeerRemoved (Id ps)]
          \<and> length (buckets rt') = length (buckets rt)
          \<and> peerPingFnc rt' = peerPingFnc rt \<and> peerConnectednessFnc rt' = peerConnectednessFnc rt
          \<and> rtRefreshInterval rt' = rtRefreshInterval rt
          \<and> (\<forall>p. p \<noteq> Id ps \<longrightarrow> map (filter (\<lambda>r. Id r = p)) (buckets rt') =
                             map (filter (\<lambda>r. Id r = p)) (buckets rt))"
    then obtain rt' where r: "removePeer cv rt (Id ps) = Inr rt'" "Id ps \<in> set (ListPeers rt)"
      "notified rt' = notified rt @ [PeerRemoved (Id ps)]"
      "length (buckets rt') = length (buckets rt)"
      "peerPingFnc rt' = peerPingFnc rt" "peerConnectednessFnc rt' = peerConnectednessFnc rt"
      "\<forall>p. p \<noteq> Id ps \<longrightarrow> map (filter (\<lambda>r. Id r = p)) (buckets rt') =
                             map (filter (\<lambda>r. Id r = p)) (buckets rt)"
      by blast
    from r(4) assms have "buckets rt' \<noteq> []"
      by auto
    with c True r show ?thesis
      by (intro exI [of _ rt']) simp
  qed
qed

lemma checkPeers_gate:
  assumes "buckets rt \<noteq> []"
  shows "\<exists>rt' evs. checkPeers cv now rt snap = Inr rt' \<and> notified rt' = notified rt @ evs
     \<and> (\<forall>e \<in> set evs. \<exists>q. e = PeerRemoved q \<and> q \<in> Id ` set snap
            \<and> peerPingFnc rt q \<noteq> None \<and> \<not> peerConnectednessFnc rt q)
     \<and> (\<forall>p. peerConnectednessFnc rt p \<or> peerPingFnc rt p = None \<longrightarrow>
            map (filter (\<lambda>r. Id r = p)) (buckets rt') = map (filter (\<lambda>r. Id r = p)) (buckets rt))"
  using assms
proof (induction snap arbitrary: rt)
  case Nil
  then show ?case by simp
next
  case (Cons ps snap)
  from checkPeer_step [OF Cons.prems, of cv now ps] obtain rt1 where
    s: "checkPeer cv now rt ps = Inr rt1" "buckets rt1 \<noteq> []"
      "peerPingFnc rt1 = peerPingFnc rt" "peerConnectednessFnc rt1 = peerConnectednessFnc rt" and
    d: "rt1 = rt
        \<or> peerPingFnc rt (Id ps) \<noteq> None \<and> \<not> peerConnectednessFnc rt (Id ps)
          \<and> notified rt1 = notified rt @ [PeerRemoved (Id ps)]
          \<and> (\<forall>p. p \<noteq> Id ps \<longrightarrow> map (filter (\<lambda>r. Id r = p)) (buckets rt1) =
                               map (filter (\<lambda>r. Id r = p)) (buckets rt))"
    by blast
  from Cons.IH [OF s(2)] obtain rt' evs where
    r: "checkPeers cv now rt1 snap = Inr rt'" "notified rt' = notified rt1 @ evs" and
    e: "\<forall>e \<in> set evs. \<exists>q. e = PeerRemoved q \<and> q \<in> Id ` set snap
            \<and> peerPingFnc rt q \<noteq> None \<and> \<not> peerConnectednessFnc rt q" and
    k: "\<forall>p. peerConnectednessFnc rt p \<or> peerPingFnc rt p = None \<longrightarrow>
            map (filter (\<lambda>r. Id r = p)) (buckets rt') = map (filter (\<lambda>r. Id r = p)) (buckets rt1)"
    unfolding s(3,4) by blast
  have c: "checkPeers cv now rt (ps # snap) = Inr rt'"
    by (simp add: s(1) r(1))
  from d show ?case
  proof
    assume "rt1 = rt"
    with c r(2) e k show ?thesis
      by (intro exI [of _ rt'] exI [of _ evs]) auto
  next
    assume a: "peerPingFnc rt (Id ps) \<noteq> None \<and> \<not> peerConnectednessFnc rt (Id ps)
          \<and> notified rt1 = notified rt @ [PeerRemoved (Id ps)]
          \<and> (\<forall>p. p \<noteq> Id ps \<longrightarrow> map (filter (\<lambda>r. Id r = p)) (buckets rt1) =
                               map (filter (\<lambda>r. Id r = p)) (buckets rt))"
    have n: "notified rt' = notified rt @ PeerRemoved (Id ps) # evs"
      using a r(2) by simp
    have e': "\<forall>e \<in> set (PeerRemoved (Id ps) # evs). \<exists>q. e = PeerRemoved q \<and> q \<in> Id ` set (ps # snap)
            \<and> peerPingFnc rt q \<noteq> None \<and> \<not> peerConnectednessFnc rt q"
      using a e by auto
    have k': "\<forall>p. peerConnectednessFnc rt p \<or> peerPingFnc rt p = None \<longrightarrow>
            map (filter (\<lambda>r. Id r = p)) (buckets rt') = map (filter (\<lambda>r. Id r = p)) (buckets rt)"
    proof (intro allI impI)
      fix p assume p: "peerConnectednessFnc rt p \<or> peerPingFnc rt p = None"
      with a have "p \<noteq> Id ps" by auto
      with a have "map (filter (\<lambda>r. Id r = p)) (buckets rt1) = map (filter (\<lambda>r. Id r = p)) (buckets rt)"
        by blast
      moreover from k p
      have "map (filter (\<lambda>r. Id r = p)) (buckets rt') = map (filter (\<lambda>r. Id r = p)) (buckets rt1)"
        by blast
      ultimately
      show "map (filter (\<lambda>r. Id r = p)) (buckets rt') = map (filter (\<lambda>r. Id r = p)) (buckets rt)"
        by (rule ssubst [rotated]) 
    qed
    from c n e' k' show ?thesis
      by (intro exI [of _ rt'] exI [of _ "PeerRemoved (Id ps) # evs"]) blast
  qed
qed

text \<open>
  Claim C9. One iteration of the liveness loop, for a record \<open>ps\<close> of the snapshot and the
  table as it is when the iteration runs, returns a table. It returns the table unchanged,
  so that the peer remains and \<^verbatim>\<open>PeerRemoved\<close> is not fired, whenever the connectedness
  check is true at that point. When the table has changed, the peer was due for a ping, the
  ping returned an error and the connectedness check was false; the peer was in the table
  and the one notification is \<^verbatim>\<open>PeerRemoved\<close> for it. For the whole loop over a snapshot,
  with the answers of the two oracles fixed: every notification of the loop is
  \<^verbatim>\<open>PeerRemoved\<close> for a peer of the snapshot whose ping failed and that was not connected, and
  the records of a peer that is connected or whose ping succeeds are in the buckets as
  before.
\<close>

theorem liveness_gate:
  assumes "buckets rt \<noteq> []"
  shows "(\<exists>rt'. checkPeer cv now rt ps = Inr rt'
     \<and> (peerConnectednessFnc rt (Id ps) \<longrightarrow> rt' = rt)
     \<and> (rt' \<noteq> rt \<longrightarrow>
           quo (rtRefreshInterval rt) 3 < Since now (lastSuccessfulOutboundQuery ps)
         \<and> peerPingFnc rt (Id ps) \<noteq> None
         \<and> \<not> peerConnectednessFnc rt (Id ps)
         \<and> Id ps \<in> set (ListPeers rt)
         \<and> notified rt' = notified rt @ [PeerRemoved (Id ps)]))
   \<and> (\<exists>rt' evs. checkPeers cv now rt snap = Inr rt' \<and> notified rt' = notified rt @ evs
     \<and> (\<forall>e \<in> set evs. \<exists>q. e = PeerRemoved q \<and> q \<in> Id ` set snap
            \<and> peerPingFnc rt q \<noteq> None \<and> \<not> peerConnectednessFnc rt q)
     \<and> (\<forall>p. peerConnectednessFnc rt p \<or> peerPingFnc rt p = None \<longrightarrow>
            map (filter (\<lambda>r. Id r = p)) (buckets rt') = map (filter (\<lambda>r. Id r = p)) (buckets rt)))"
proof (rule conjI)
  from checkPeer_step [OF assms, of cv now ps] obtain rt' where
    "checkPeer cv now rt ps = Inr rt'"
    "rt' = rt
        \<or> quo (rtRefreshInterval rt) 3 < Since now (lastSuccessfulOutboundQuery ps)
          \<and> peerPingFnc rt (Id ps) \<noteq> None
          \<and> \<not> peerConnectednessFnc rt (Id ps)
          \<and> Id ps \<in> set (ListPeers rt)
          \<and> notified rt' = notified rt @ [PeerRemoved (Id ps)]
          \<and> (\<forall>p. p \<noteq> Id ps \<longrightarrow> map (filter (\<lambda>r. Id r = p)) (buckets rt') =
                               map (filter (\<lambda>r. Id r = p)) (buckets rt))"
    by blast
  then show "\<exists>rt'. checkPeer cv now rt ps = Inr rt'
     \<and> (peerConnectednessFnc rt (Id ps) \<longrightarrow> rt' = rt)
     \<and> (rt' \<noteq> rt \<longrightarrow>
           quo (rtRefreshInterval rt) 3 < Since now (lastSuccessfulOutboundQuery ps)
         \<and> peerPingFnc rt (Id ps) \<noteq> None
         \<and> \<not> peerConnectednessFnc rt (Id ps)
         \<and> Id ps \<in> set (ListPeers rt)
         \<and> notified rt' = notified rt @ [PeerRemoved (Id ps)])"
    by (intro exI [of _ rt']) blast
next
  from assms show "\<exists>rt' evs. checkPeers cv now rt snap = Inr rt' \<and> notified rt' = notified rt @ evs
     \<and> (\<forall>e \<in> set evs. \<exists>q. e = PeerRemoved q \<and> q \<in> Id ` set snap
            \<and> peerPingFnc rt q \<noteq> None \<and> \<not> peerConnectednessFnc rt q)
     \<and> (\<forall>p. peerConnectednessFnc rt p \<or> peerPingFnc rt p = None \<longrightarrow>
            map (filter (\<lambda>r. Id r = p)) (buckets rt') = map (filter (\<lambda>r. Id r = p)) (buckets rt))"
    by (rule checkPeers_gate)
qed

theorem liveness_gate_witness:
  "buckets (ex_table 2 [[ex_peer ''A'' 0, ex_peer ''B'' 0]]) \<noteq> []
   \<and> peerConnectednessFnc (ex_table 2 [[ex_peer ''A'' 0, ex_peer ''B'' 0]]) ''A''
   \<and> peerPingFnc (ex_table 2 [[ex_peer ''A'' 0, ex_peer ''B'' 0]]) ''A'' \<noteq> None
   \<and> checkPeer ex_key (64 * 10 ^ 18) (ex_table 2 [[ex_peer ''A'' 0, ex_peer ''B'' 0]]) (ex_peer ''A'' 0) =
       Inr (ex_table 2 [[ex_peer ''A'' 0, ex_peer ''B'' 0]])
   \<and> \<not> peerConnectednessFnc (ex_table 2 [[ex_peer ''A'' 0, ex_peer ''B'' 0]]) ''B''
   \<and> peerPingFnc (ex_table 2 [[ex_peer ''A'' 0, ex_peer ''B'' 0]]) ''B'' \<noteq> None
   \<and> checkPeer ex_key (64 * 10 ^ 18) (ex_table 2 [[ex_peer ''A'' 0, ex_peer ''B'' 0]]) (ex_peer ''B'' 0) =
       Inr ((ex_table 2 [[ex_peer ''A'' 0]])\<lparr>notified := [PeerRemoved ''B'']\<rparr>)
   \<and> checkPeers ex_key (64 * 10 ^ 18) (ex_table 2 [[ex_peer ''A'' 0, ex_peer ''B'' 0]])
        (snapshot (ex_table 2 [[ex_peer ''A'' 0, ex_peer ''B'' 0]])) =
       Inr ((ex_table 2 [[ex_peer ''A'' 0]])\<lparr>notified := [PeerRemoved ''B'']\<rparr>)"
proof -
  let ?rt = "ex_table 2 [[ex_peer ''A'' 0, ex_peer ''B'' 0]]"
  have h: "buckets ?rt \<noteq> []"
    by (simp add: ex_table_def)
  have o: "peerConnectednessFnc ?rt ''A''" "peerPingFnc ?rt ''A'' \<noteq> None"
    "\<not> peerConnectednessFnc ?rt ''B''" "peerPingFnc ?rt ''B'' \<noteq> None"
    by (simp_all add: ex_defs)
  have e1: "checkPeer ex_key (64 * 10 ^ 18) ?rt (ex_peer ''A'' 0) = Inr ?rt"
    by (simp add: checkPeer_def quo_def run_defs ex_defs ev)
  have e2: "checkPeer ex_key (64 * 10 ^ 18) ?rt (ex_peer ''B'' 0) =
       Inr ((ex_table 2 [[ex_peer ''A'' 0]])\<lparr>notified := [PeerRemoved ''B'']\<rparr>)"
    by (simp add: checkPeer_def quo_def run_defs ex_defs ev)
  have e3: "checkPeers ex_key (64 * 10 ^ 18) ?rt (snapshot ?rt) =
       Inr ((ex_table 2 [[ex_peer ''A'' 0]])\<lparr>notified := [PeerRemoved ''B'']\<rparr>)"
    by (simp add: snapshot_def checkPeer_def quo_def run_defs ex_defs ev)
  from liveness_gate [OF h, of ex_key "64 * 10 ^ 18" "ex_peer ''A'' 0" "snapshot ?rt"] h o e1 e2 e3
  show ?thesis
    by blast
qed

section \<open>Common prefixes and distance\<close>














section \<open>Consistency of the reachable tables\<close>

lemma consistent_iff:
  "consistent cv rt \<longleftrightarrow>
     buckets rt \<noteq> []
   \<and> (\<forall>i < length (buckets rt). \<forall>r \<in> set (buckets rt ! i).
        key r = cv (Id r)
      \<and> min (CommonPrefixLen (key r) (local rt)) (length (buckets rt) - 1) = i)"
  unfolding consistent_def assigned_nth keyed_def all_set_conv_all_nth by blast

lemma consistent_notify [simp]: "consistent cv (notify rt e) = consistent cv rt"
  by (simp add: consistent_iff)
















section \<open>The candidates of a lookup\<close>

lemma candidate_simps [simp]:
  "p_id (candidate t r) = Id r"
  "distance (candidate t r) = xor_dist t (key r)"
  by (simp_all add: candidate_def)

lemma appendPeersFromList_simps [simp]:
  "target (appendPeersFromList pds l) = target pds"
  "sorter_peers (appendPeersFromList pds l) = sorter_peers pds @ map (candidate (target pds)) l"
  by (simp_all add: appendPeersFromList_def)

lemma appendPeersFromList_Nil [simp]: "appendPeersFromList pds [] = pds"
  by (simp add: appendPeersFromList_def)

lemma appendWhileShort_target [simp]: "target (appendWhileShort count pds bs) = target pds"
  by (induction bs arbitrary: pds) simp_all

lemma appendWhileShort_full: "\<not> Len pds < count \<Longrightarrow> appendWhileShort count pds bs = pds"
  by (cases bs) simp_all

lemma appendWhileShort_append:
  "appendWhileShort count pds (xs @ ys) = appendWhileShort count (appendWhileShort count pds xs) ys"
  by (induction xs arbitrary: pds) (simp_all add: appendWhileShort_full)

lemma appendWhileShort_mono:
  "set (sorter_peers pds) \<subseteq> set (sorter_peers (appendWhileShort count pds bs))"
proof (induction bs arbitrary: pds)
  case Nil
  show ?case by simp
next
  case (Cons b bs)
  have "set (sorter_peers pds) \<subseteq> set (sorter_peers (appendPeersFromList pds b))"
    by simp
  also note Cons.IH [of "appendPeersFromList pds b"]
  finally show ?case by simp
qed



lemma targetIndex_less: "buckets rt \<noteq> [] \<Longrightarrow> targetIndex rt t < length (buckets rt)"
  by (cases "buckets rt") (simp_all add: targetIndex_def min_def)



lemma gather_Inr:
  assumes "buckets rt \<noteq> []" and "0 \<le> count + bucketsize rt"
  shows "gather rt t count =
    Inr (appendWhileShort count
          (appendPeersFromList \<lparr>sorter_peers = [], target = t\<rparr> (hd (visit rt t)))
          (tl (visit rt t)))"
proof -
  let ?m = "length (buckets rt)"
  let ?c = "targetIndex rt t"
  let ?cpl = "if int (CommonPrefixLen t (local rt)) \<ge> int ?m then int ?m - 1
    else int (CommonPrefixLen t (local rt))"
  from assms(1) have c: "?cpl = int ?c"
    by (cases "buckets rt") (auto simp: targetIndex_def min_def)
  from targetIndex_less [OF assms(1), of t]
  have i: "idx (buckets rt) (int ?c) = Inr (buckets rt ! ?c)"
    by (simp add: idx_Inr)
  have n: "nat (int ?c + 1) = Suc ?c" "nat (int ?c) = ?c"
    by simp_all
  from assms(2) show ?thesis
    unfolding gather_def Let_def c i n visit_def
    by (simp add: appendWhileShort_append)
qed



lemma gather_target:
  assumes "buckets rt \<noteq> []" and "gather rt t count = Inr pds"
  shows "candidate t ` set (buckets rt ! targetIndex rt t) \<subseteq> set (sorter_peers pds)"
proof -
  from assms(2) have "0 \<le> count + bucketsize rt"
    by (auto simp: gather_def Let_def split: if_splits)
  from gather_Inr [OF assms(1) this, of t] assms(2)
  have "pds = appendWhileShort count
          (appendPeersFromList \<lparr>sorter_peers = [], target = t\<rparr> (hd (visit rt t)))
          (tl (visit rt t))"
    by simp
  then show ?thesis
    using appendWhileShort_mono
      [of "appendPeersFromList \<lparr>sorter_peers = [], target = t\<rparr> (hd (visit rt t))" count "tl (visit rt t)"]
    by (auto simp: visit_def)
qed




section \<open>Buckets and distance to a target\<close>




lemma sort_key_Nil_iff [simp]: "sort_key f xs = [] \<longleftrightarrow> xs = []"
  using length_sort [of f xs] by (metis length_0_conv)


section \<open>The result of a lookup\<close>








section \<open>Exact lookup\<close>







end
